theory Spec2Isabelle
  imports Main "HOL-Library.AList" "HOL-Library.Sublist"
begin

section \<open>Values, exceptions and steps\<close>

text \<open>
  Python values that travel through the engine: artifacts, call arguments, step results.
  \<open>VTuple\<close> and \<open>VDict\<close> are what \<open>*args\<close> and \<open>**kwargs\<close> collect; \<open>VPipeline\<close> is a
  reference to a \<open>Pipeline\<close> object, identified by its address, and \<open>VObject\<close> a reference to
  an object of any other class (a function, an open file, a model).
\<close>

datatype val =
    VNone
  | VInt int
  | VStr string
  | VTuple "val list"
  | VDict "(string \<times> val) list"
  | VPipeline nat
  | VObject nat

text \<open>A Python \<open>dict\<close> with string keys, in insertion order.\<close>

type_synonym pydict = "(string \<times> val) list"

datatype exn =
    ArtifactNotFoundError string
  | TypeError
  | ValueError
  | AttributeError
  | FileNotFoundError
  | FileExistsError
  | IsADirectoryError
  | NotADirectoryError
  | OSError
  | PicklingError
  | UnpicklingError
  | EOFError
  | StepError string

text \<open>
  \<open>dict.update(other)\<close> and \<open>dict(items)\<close>: a key already present keeps its position and
  takes the new value, a new key goes to the end.
\<close>

definition dict_update :: "pydict \<Rightarrow> pydict \<Rightarrow> pydict" where
  "dict_update d other = foldl (\<lambda>acc (k, v). AList.update k v acc) d other"

definition dict_of_items :: "pydict \<Rightarrow> pydict" where
  "dict_of_items items = dict_update [] items"

text \<open>
  \<open>inspect.Parameter\<close>: its name, its kind and its default (\<open>None\<close> stands for
  \<open>inspect.Parameter.empty\<close>, \<open>Some VNone\<close> for a declared default of \<open>None\<close>).
\<close>

datatype kind = POSITIONAL_OR_KEYWORD | VAR_POSITIONAL | KEYWORD_ONLY | VAR_KEYWORD

record param =
  pname :: string
  kind :: kind
  default :: "val option"

text \<open>
  A \<open>PipelineStep\<close> object. \<open>name\<close> is the attribute \<open>_name\<close>, \<open>config\<close> the other entries of
  the instance's \<open>__dict__\<close>, \<open>signature\<close> the parameters of the bound method \<open>execute\<close> as
  \<open>inspect.signature\<close> reports them. The body of \<open>execute\<close> is the function from the call's
  positional and keyword arguments to its return value or to the exception it raises;
  \<open>inverse\<close> is the body of an overriding \<open>execute_inverse\<close>, \<open>None\<close> when the step inherits
  the one of \<open>PipelineStep\<close>.
\<close>

record step =
  name :: string
  config :: pydict
  signature :: "param list"
  execute :: "val list \<Rightarrow> pydict \<Rightarrow> exn + val"
  inverse :: "(nat \<Rightarrow> pydict \<Rightarrow> exn + pydict) option"

definition step_dict :: "step \<Rightarrow> pydict" where
  "step_dict s = (''_name'', VStr (name s)) # config s"

definition get_execute_params :: "step \<Rightarrow> param list" where
  "get_execute_params s = signature s"

text \<open>\<open>PipelineStep.execute_inverse\<close> (pipeline.py, lines 44-52) unless overridden.\<close>

definition execute_inverse :: "step \<Rightarrow> nat \<Rightarrow> pydict \<Rightarrow> exn + pydict" where
  "execute_inverse s pipeline kwargs =
     (case inverse s of None \<Rightarrow> Inr [] | Some f \<Rightarrow> f pipeline kwargs)"

section \<open>Files and pickling\<close>

text \<open>
  \<open>os.path.join\<close> for two components and \<open>os.path.dirname\<close>, as \<open>posixpath\<close> defines
  them.
\<close>

definition path_join :: "string \<Rightarrow> string \<Rightarrow> string" where
  "path_join a b =
     (if b \<noteq> [] \<and> hd b = CHR ''/'' then b
      else if a = [] \<or> last a = CHR ''/'' then a @ b
      else a @ ''/'' @ b)"

definition all_slash :: "string \<Rightarrow> bool" where
  "all_slash p = list_all (\<lambda>c. c = CHR ''/'') p"

definition rstrip_slash :: "string \<Rightarrow> string" where
  "rstrip_slash p = rev (dropWhile (\<lambda>c. c = CHR ''/'') (rev p))"

definition dirname :: "string \<Rightarrow> string" where
  "dirname p =
     (let head = rev (dropWhile (\<lambda>c. c \<noteq> CHR ''/'') (rev p))
      in if head \<noteq> [] \<and> \<not> all_slash head then rstrip_slash head else head)"

text \<open>
  The file system: the files with their contents, and the directories. A path stands for
  itself: two paths name the same file when they are the same string, and a directory is
  recorded without its trailing slashes (\<open>normdir\<close>); \<open>.\<close>, \<open>..\<close>, doubled slashes and links
  are not interpreted. The root always exists, and a path without a directory part lies
  in the current directory, which always exists too.
\<close>

type_synonym bytes = "nat list"

record filesystem =
  files :: "(string \<times> bytes) list"
  dirs :: "string list"

definition normdir :: "string \<Rightarrow> string" where
  "normdir d = (if all_slash d then d else rstrip_slash d)"

definition isfile :: "filesystem \<Rightarrow> string \<Rightarrow> bool" where
  "isfile fs p = (map_of (files fs) p \<noteq> None)"

definition isdir :: "filesystem \<Rightarrow> string \<Rightarrow> bool" where
  "isdir fs p = (p \<noteq> [] \<and> (all_slash p \<or> normdir p \<in> set (dirs fs)))"

text \<open>\<open>os.path.exists\<close>.\<close>

definition path_exists :: "filesystem \<Rightarrow> string \<Rightarrow> bool" where
  "path_exists fs p = (isfile fs p \<or> isdir fs p)"

text \<open>
  \<open>os.makedirs\<close>: the directory and the directories above it (\<open>ancestors\<close>, which stops
  at the root or at the current directory).
\<close>

fun ancestors :: "nat \<Rightarrow> string \<Rightarrow> string list" where
  "ancestors 0 d = []"
| "ancestors (Suc k) d =
     (if d = [] \<or> all_slash d then [] else d # ancestors k (dirname d))"

definition os_makedirs :: "filesystem \<Rightarrow> string \<Rightarrow> exn + filesystem" where
  "os_makedirs fs d =
     (if d = [] then Inl FileNotFoundError
      else if path_exists fs d \<or> isfile fs (normdir d) then Inl FileExistsError
      else if list_ex (isfile fs) (ancestors (length d) (normdir d)) then Inl NotADirectoryError
      else Inr (fs\<lparr>dirs := List.union (ancestors (length d) (normdir d)) (dirs fs)\<rparr>))"

text \<open>
  \<open>open(p, "wb")\<close>: the directory of \<open>p\<close> must exist and \<open>p\<close> must not be a directory; the
  file is created empty, or emptied.
\<close>

definition open_wb :: "filesystem \<Rightarrow> string \<Rightarrow> exn + filesystem" where
  "open_wb fs p =
     (if p = [] then Inl FileNotFoundError
      else if last p = CHR ''/'' \<or> isdir fs p then Inl IsADirectoryError
      else if dirname p \<noteq> [] \<and> \<not> isdir fs (dirname p)
      then Inl (if isfile fs (dirname p) then NotADirectoryError else FileNotFoundError)
      else Inr (fs\<lparr>files := AList.update p [] (files fs)\<rparr>))"

text \<open>\<open>os.remove\<close> and \<open>os.rmdir\<close>; a directory that is not empty is not removed.\<close>

definition os_remove :: "filesystem \<Rightarrow> string \<Rightarrow> exn + filesystem" where
  "os_remove fs p =
     (if isfile fs p then Inr (fs\<lparr>files := AList.delete p (files fs)\<rparr>)
      else if isdir fs p then Inl IsADirectoryError
      else Inl FileNotFoundError)"



text \<open>
  \<open>pickle\<close> is a parameter of the model. \<open>pickle_dump\<close> gives the bytes of a value, or,
  when \<open>pickle.dump\<close> raises, the exception and the bytes written before it;
  \<open>pickle_load\<close> gives the value read from bytes, or the exception \<open>pickle.load\<close> raises.
  \<open>pickle_dump_file\<close> is \<open>with open(p, "wb") as f: pickle.dump(v, f)\<close> and
  \<open>pickle_load_file\<close> is \<open>with open(p, "rb") as f: return pickle.load(f)\<close>.
\<close>

record pickle =
  pickle_dump :: "val \<Rightarrow> (exn \<times> bytes) + bytes"
  pickle_load :: "bytes \<Rightarrow> exn + val"

definition pickle_dump_file ::
  "pickle \<Rightarrow> filesystem \<Rightarrow> string \<Rightarrow> val \<Rightarrow> exn option \<times> filesystem" where
  "pickle_dump_file pk fs p v =
     (case open_wb fs p of
        Inl e \<Rightarrow> (Some e, fs)
      | Inr fs' \<Rightarrow>
          (case pickle_dump pk v of
             Inl (e, written) \<Rightarrow> (Some e, fs'\<lparr>files := AList.update p written (files fs')\<rparr>)
           | Inr data \<Rightarrow> (None, fs'\<lparr>files := AList.update p data (files fs')\<rparr>)))"

definition pickle_load_file :: "pickle \<Rightarrow> filesystem \<Rightarrow> string \<Rightarrow> exn + val" where
  "pickle_load_file pk fs p =
     (case map_of (files fs) p of
        Some content \<Rightarrow> pickle_load pk content
      | None \<Rightarrow> Inl (if isdir fs p then IsADirectoryError else FileNotFoundError))"

section \<open>Artifact store and pipelines\<close>

text \<open>
  \<open>ArtifactInMemory\<close> (pipeline.py, lines 142-169): the dictionary \<open>artifacts\<close>.
\<close>

type_synonym artifacts = "string \<rightharpoonup> val"

definition ArtifactInMemory_save_artifact :: "artifacts \<Rightarrow> string \<Rightarrow> val \<Rightarrow> artifacts" where
  "ArtifactInMemory_save_artifact arts artifact_name artifact = arts(artifact_name \<mapsto> artifact)"

definition ArtifactInMemory_get_artifact ::
  "artifacts \<Rightarrow> string \<Rightarrow> val \<Rightarrow> bool \<Rightarrow> exn + val" where
  "ArtifactInMemory_get_artifact arts artifact_name dflt raise_not_found =
     (if raise_not_found \<and> arts artifact_name = None
      then Inl (ArtifactNotFoundError artifact_name)
      else Inr (case arts artifact_name of Some v \<Rightarrow> v | None \<Rightarrow> dflt))"

definition ArtifactInMemory_del_artifact :: "artifacts \<Rightarrow> string \<Rightarrow> artifacts" where
  "ArtifactInMemory_del_artifact arts artifact_name =
     (if arts artifact_name \<noteq> None then arts(artifact_name := None) else arts)"


text \<open>
  \<open>ArtifactInDisk\<close> (pipeline.py, lines 172-218): the directory of the pipeline and the
  dictionary \<open>artifacts\<close> from the name of an artifact to the path of its file. Each
  method takes the file system and returns it; a method that raises returns the file
  system, and the dictionary, as they were at that moment.
\<close>

type_synonym disk_index = "(string \<times> string) list"

definition artifact_path_of :: "string \<Rightarrow> disk_index \<Rightarrow> string \<Rightarrow> string" where
  "artifact_path_of directory index artifact_name =
     (case map_of index artifact_name of
        Some p \<Rightarrow> p
      | None \<Rightarrow> path_join directory artifact_name)"

definition ArtifactInDisk_save_artifact ::
  "pickle \<Rightarrow> filesystem \<Rightarrow> string \<Rightarrow> disk_index \<Rightarrow> string \<Rightarrow> val \<Rightarrow>
     exn option \<times> filesystem \<times> disk_index" where
  "ArtifactInDisk_save_artifact pk fs directory index artifact_name artifact =
     (let artifact_path = path_join directory artifact_name
      in case pickle_dump_file pk fs artifact_path artifact of
           (Some e, fs') \<Rightarrow> (Some e, fs', index)
         | (None, fs') \<Rightarrow> (None, fs', AList.update artifact_name artifact_path index))"

definition ArtifactInDisk_get_artifact ::
  "pickle \<Rightarrow> filesystem \<Rightarrow> string \<Rightarrow> disk_index \<Rightarrow> string \<Rightarrow> val \<Rightarrow> bool \<Rightarrow> exn + val" where
  "ArtifactInDisk_get_artifact pk fs directory index artifact_name dflt raise_not_found =
     (let artifact_path = artifact_path_of directory index artifact_name
      in if raise_not_found \<and> \<not> path_exists fs artifact_path
         then Inl (ArtifactNotFoundError artifact_name)
         else if \<not> path_exists fs artifact_path then Inr dflt
         else pickle_load_file pk fs artifact_path)"

definition ArtifactInDisk_del_artifact ::
  "filesystem \<Rightarrow> string \<Rightarrow> disk_index \<Rightarrow> string \<Rightarrow> exn option \<times> filesystem" where
  "ArtifactInDisk_del_artifact fs directory index artifact_name =
     (let artifact_path = artifact_path_of directory index artifact_name
      in if path_exists fs artifact_path
         then (case os_remove fs artifact_path of
                 Inl e \<Rightarrow> (Some e, fs)
               | Inr fs' \<Rightarrow> (None, fs'))
         else (None, fs))"



text \<open>
  The artifact manager of a pipeline is one of the two. \<open>ArtifactInDisk_init\<close> is the
  constructor of the second (pipeline.py, lines 178-182), with the default root \<open>/tmp/\<close>.
\<close>

datatype artifact_manager =
    ArtifactInMemory artifacts
  | ArtifactInDisk string disk_index

definition ArtifactInDisk_init :: "string \<Rightarrow> filesystem \<Rightarrow> exn + (artifact_manager \<times> filesystem)" where
  "ArtifactInDisk_init pipeline_name fs =
     (let directory = path_join ''/tmp/'' pipeline_name
      in if \<not> path_exists fs directory
         then (case os_makedirs fs directory of
                 Inl e \<Rightarrow> Inl e
               | Inr fs' \<Rightarrow> Inr (ArtifactInDisk directory [], fs'))
         else Inr (ArtifactInDisk directory [], fs))"

definition manager_save_artifact ::
  "pickle \<Rightarrow> filesystem \<Rightarrow> artifact_manager \<Rightarrow> string \<Rightarrow> val \<Rightarrow>
     exn option \<times> filesystem \<times> artifact_manager" where
  "manager_save_artifact pk fs m artifact_name artifact =
     (case m of
        ArtifactInMemory arts \<Rightarrow>
          (None, fs, ArtifactInMemory (ArtifactInMemory_save_artifact arts artifact_name artifact))
      | ArtifactInDisk directory index \<Rightarrow>
          (case ArtifactInDisk_save_artifact pk fs directory index artifact_name artifact of
             (e, fs', index') \<Rightarrow> (e, fs', ArtifactInDisk directory index')))"

definition manager_get_artifact ::
  "pickle \<Rightarrow> filesystem \<Rightarrow> artifact_manager \<Rightarrow> string \<Rightarrow> val \<Rightarrow> bool \<Rightarrow> exn + val" where
  "manager_get_artifact pk fs m artifact_name dflt raise_not_found =
     (case m of
        ArtifactInMemory arts \<Rightarrow>
          ArtifactInMemory_get_artifact arts artifact_name dflt raise_not_found
      | ArtifactInDisk directory index \<Rightarrow>
          ArtifactInDisk_get_artifact pk fs directory index artifact_name dflt raise_not_found)"

definition manager_del_artifact ::
  "filesystem \<Rightarrow> artifact_manager \<Rightarrow> string \<Rightarrow> exn option \<times> filesystem \<times> artifact_manager" where
  "manager_del_artifact fs m artifact_name =
     (case m of
        ArtifactInMemory arts \<Rightarrow>
          (None, fs, ArtifactInMemory (ArtifactInMemory_del_artifact arts artifact_name))
      | ArtifactInDisk directory index \<Rightarrow>
          (case ArtifactInDisk_del_artifact fs directory index artifact_name of
             (e, fs') \<Rightarrow> (e, fs', m)))"


text \<open>
  A \<open>Pipeline\<close> object. Parents are references to other pipelines, so pipelines live in a
  heap indexed by address and \<open>parents\<close> holds addresses.
\<close>

record pipeline =
  pipeline_name :: string
  steps :: "step list"
  artifact_manager :: artifact_manager
  finished :: bool
  parents :: "nat list"
  processed_stack :: "step list"

type_synonym heap = "nat \<Rightarrow> pipeline"

text \<open>
  \<open>Pipeline.__init__\<close> (pipeline.py, lines 226-242): the store is on disk when
  \<open>optimize_arftifacts_memory\<close> is set, which is the default, and in memory otherwise.
\<close>

definition Pipeline_init ::
  "string \<Rightarrow> step list \<Rightarrow> bool \<Rightarrow> filesystem \<Rightarrow> exn + (pipeline \<times> filesystem)" where
  "Pipeline_init n ss optimize_arftifacts_memory fs =
     (case (if optimize_arftifacts_memory then ArtifactInDisk_init n fs
            else Inr (ArtifactInMemory Map.empty, fs)) of
        Inl e \<Rightarrow> Inl e
      | Inr (m, fs') \<Rightarrow>
          Inr (\<lparr>pipeline_name = n, steps = ss, artifact_manager = m, finished = False,
                parents = [], processed_stack = []\<rparr>, fs'))"

definition add_parent :: "heap \<Rightarrow> nat \<Rightarrow> nat \<Rightarrow> heap" where
  "add_parent h self parent =
     (if parent \<notin> set (parents (h self))
      then h(self := (h self)\<lparr>parents := parents (h self) @ [parent]\<rparr>)
      else h)"

text \<open>
  The methods of \<open>Pipeline\<close> that change the store return the exception that left them, if
  any, the file system and the heap.
\<close>

type_synonym outcome = "exn option \<times> filesystem \<times> heap"

definition save_artifact ::
  "pickle \<Rightarrow> filesystem \<Rightarrow> heap \<Rightarrow> nat \<Rightarrow> string \<Rightarrow> val \<Rightarrow> outcome" where
  "save_artifact pk fs h self artifact_name artifact =
     (case manager_save_artifact pk fs (artifact_manager (h self)) artifact_name artifact of
        (e, fs', m') \<Rightarrow> (e, fs', h(self := (h self)\<lparr>artifact_manager := m'\<rparr>)))"

definition del_artifact :: "filesystem \<Rightarrow> heap \<Rightarrow> nat \<Rightarrow> string \<Rightarrow> outcome" where
  "del_artifact fs h self artifact_name =
     (case manager_del_artifact fs (artifact_manager (h self)) artifact_name of
        (e, fs', m') \<Rightarrow> (e, fs', h(self := (h self)\<lparr>artifact_manager := m'\<rparr>)))"

text \<open>
  \<open>Pipeline.get_artifact\<close> (pipeline.py, lines 287-314). The method calls itself on the
  parents, and parents may form a cycle, so the recursion depth is bounded by a fuel
  argument: \<open>None\<close> means the depth was exhausted. \<open>get_artifact_parents\<close> is the
  \<open>for parent in self.parents\<close> loop of the exception handler together with the code after
  it.
\<close>

fun get_artifact ::
  "pickle \<Rightarrow> nat \<Rightarrow> filesystem \<Rightarrow> heap \<Rightarrow> nat \<Rightarrow> string \<Rightarrow> val \<Rightarrow> bool \<Rightarrow> (exn + val) option"
  and get_artifact_parents ::
    "pickle \<Rightarrow> nat \<Rightarrow> filesystem \<Rightarrow> heap \<Rightarrow> nat list \<Rightarrow> string \<Rightarrow> val \<Rightarrow> bool \<Rightarrow>
       (exn + val) option"
where
  "get_artifact pk 0 fs h self artifact_name dflt raise_not_found = None"
| "get_artifact pk (Suc fuel) fs h self artifact_name dflt raise_not_found =
     (case manager_get_artifact pk fs (artifact_manager (h self))
             artifact_name dflt raise_not_found of
        Inr v \<Rightarrow> Some (Inr v)
      | Inl (ArtifactNotFoundError e) \<Rightarrow>
          get_artifact_parents pk fuel fs h (parents (h self)) artifact_name dflt raise_not_found
      | Inl e \<Rightarrow> Some (Inl e))"
| "get_artifact_parents pk fuel fs h [] artifact_name dflt raise_not_found =
     (if raise_not_found then Some (Inl (ArtifactNotFoundError artifact_name))
      else Some (Inr dflt))"
| "get_artifact_parents pk fuel fs h (parent # rest) artifact_name dflt raise_not_found =
     (case get_artifact pk fuel fs h parent artifact_name dflt raise_not_found of
        None \<Rightarrow> None
      | Some (Inr v) \<Rightarrow> Some (Inr v)
      | Some (Inl (ArtifactNotFoundError e)) \<Rightarrow>
          get_artifact_parents pk fuel fs h rest artifact_name dflt raise_not_found
      | Some (Inl e) \<Rightarrow> Some (Inl e))"

text \<open>\<open>Pipeline.__fill_params_from_step\<close> (pipeline.py, lines 353-374).\<close>

fun fill_params_loop ::
  "pickle \<Rightarrow> nat \<Rightarrow> filesystem \<Rightarrow> heap \<Rightarrow> nat \<Rightarrow> param list \<Rightarrow> pydict \<Rightarrow> (exn + pydict) option"
where
  "fill_params_loop pk fuel fs h self [] params = Some (Inr params)"
| "fill_params_loop pk fuel fs h self (q # qs) params =
     (if kind q = VAR_POSITIONAL \<or> kind q = VAR_KEYWORD
      then fill_params_loop pk fuel fs h self qs params
      else if pname q = ''pipeline''
      then fill_params_loop pk fuel fs h self qs (AList.update (pname q) (VPipeline self) params)
      else (case (case default q of
                    None \<Rightarrow> get_artifact pk fuel fs h self (pname q) VNone True
                  | Some d \<Rightarrow> get_artifact pk fuel fs h self (pname q) d False) of
              None \<Rightarrow> None
            | Some (Inl e) \<Rightarrow> Some (Inl e)
            | Some (Inr v) \<Rightarrow>
                fill_params_loop pk fuel fs h self qs (AList.update (pname q) v params)))"

definition fill_params_from_step ::
  "pickle \<Rightarrow> nat \<Rightarrow> filesystem \<Rightarrow> heap \<Rightarrow> nat \<Rightarrow> step \<Rightarrow> (exn + pydict) option" where
  "fill_params_from_step pk fuel fs h self s =
     fill_params_loop pk fuel fs h self (get_execute_params s) []"

text \<open>
  \<open>Pipeline.__save_step_artifacts\<close> (pipeline.py, lines 376-385); the loop stops at the
  first \<open>save_artifact\<close> that raises.
\<close>

fun save_step_artifacts :: "pickle \<Rightarrow> filesystem \<Rightarrow> heap \<Rightarrow> nat \<Rightarrow> pydict \<Rightarrow> outcome" where
  "save_step_artifacts pk fs h self [] = (None, fs, h)"
| "save_step_artifacts pk fs h self ((n, artifact) # rest) =
     (case save_artifact pk fs h self n artifact of
        (Some e, fs', h') \<Rightarrow> (Some e, fs', h')
      | (None, fs', h') \<Rightarrow> save_step_artifacts pk fs' h' self rest)"

text \<open>
  What \<open>run\<close> does with the value a step returns: \<open>None\<close> becomes the empty dictionary, a
  dictionary is iterated with \<open>items()\<close>, anything else has no \<open>items\<close>.
\<close>

fun artifacts_to_save :: "val \<Rightarrow> exn + pydict" where
  "artifacts_to_save VNone = Inr []"
| "artifacts_to_save (VDict d) = Inr d"
| "artifacts_to_save v = Inl AttributeError"

text \<open>
  \<open>Pipeline.run\<close> (pipeline.py, lines 325-351). The result is the exception that left
  \<open>run\<close>, if any, the file system and the heap as \<open>run\<close> left them, and the steps whose
  \<open>execute\<close> was called (line 341), in call order. \<open>run_steps\<close> is the
  \<open>for step in self.steps\<close> loop followed by \<open>self.finished = True\<close>.
\<close>

type_synonym run_result = "exn option \<times> filesystem \<times> heap \<times> step list"

fun run_steps ::
  "pickle \<Rightarrow> nat \<Rightarrow> filesystem \<Rightarrow> heap \<Rightarrow> nat \<Rightarrow> step list \<Rightarrow> run_result option" where
  "run_steps pk fuel fs h self [] =
     Some (None, fs, h(self := (h self)\<lparr>finished := True\<rparr>), [])"
| "run_steps pk fuel fs h self (s # rest) =
     (case fill_params_from_step pk fuel fs h self s of
        None \<Rightarrow> None
      | Some (Inl e) \<Rightarrow> Some (Some e, fs, h, [])
      | Some (Inr params) \<Rightarrow>
          (case execute s [] params of
             Inl e \<Rightarrow> Some (Some e, fs, h, [s])
           | Inr r \<Rightarrow>
               (case artifacts_to_save r of
                  Inl e \<Rightarrow> Some (Some e, fs, h, [s])
                | Inr to_save \<Rightarrow>
                    (case save_step_artifacts pk fs h self to_save of
                       (Some e, fs1, h1) \<Rightarrow> Some (Some e, fs1, h1, [s])
                     | (None, fs1, h1) \<Rightarrow>
                         (let h2 = h1(self := (h1 self)\<lparr>processed_stack :=
                                      processed_stack (h1 self) @ [s]\<rparr>)
                          in case run_steps pk fuel fs1 h2 self rest of
                               None \<Rightarrow> None
                             | Some (e, fs', h', called) \<Rightarrow> Some (e, fs', h', s # called))))))"

definition run :: "pickle \<Rightarrow> nat \<Rightarrow> filesystem \<Rightarrow> heap \<Rightarrow> nat \<Rightarrow> run_result option" where
  "run pk fuel fs h self =
     (if finished (h self) then Some (None, fs, h, [])
      else run_steps pk fuel fs h self (steps (h self)))"




section \<open>Composition of pipelines\<close>

text \<open>
  \<open>PipelineComposition.pipelines\<close> is a dictionary from a pipeline to the list of its
  children: an association list over addresses. \<open>children_of\<close> is
  \<open>self.pipelines.get(pipeline, [])\<close>.
\<close>

type_synonym adjacency = "(nat \<times> nat list) list"

definition children_of :: "adjacency \<Rightarrow> nat \<Rightarrow> nat list" where
  "children_of adj p = (case map_of adj p of Some cs \<Rightarrow> cs | None \<Rightarrow> [])"

text \<open>
  \<open>PipelineComposition._set_parents\<close> (pipeline.py, lines 416-423): the first loop is
  \<open>reset_parents\<close>, the nested loops are \<open>assign_parents\<close> and \<open>add_children\<close>.
  \<open>PipelineComposition.__init__\<close> stores the dictionary and calls it.
\<close>

fun reset_parents :: "heap \<Rightarrow> adjacency \<Rightarrow> heap" where
  "reset_parents h [] = h"
| "reset_parents h ((p, children) # rest) =
     reset_parents (h(p := (h p)\<lparr>parents := []\<rparr>)) rest"

fun add_children :: "heap \<Rightarrow> nat \<Rightarrow> nat list \<Rightarrow> heap" where
  "add_children h parent [] = h"
| "add_children h parent (child # rest) =
     add_children (add_parent h child parent) parent rest"

fun assign_parents :: "heap \<Rightarrow> adjacency \<Rightarrow> heap" where
  "assign_parents h [] = h"
| "assign_parents h ((parent, children) # rest) =
     assign_parents (add_children h parent children) rest"

definition set_parents :: "heap \<Rightarrow> adjacency \<Rightarrow> heap" where
  "set_parents h adj = assign_parents (reset_parents h adj) adj"

definition PipelineComposition_init :: "heap \<Rightarrow> adjacency \<Rightarrow> heap" where
  "PipelineComposition_init h pipelines = set_parents h pipelines"

text \<open>
  \<open>PipelineComposition._topological_sort\<close> (pipeline.py, lines 425-444). \<open>visit\<close> is the
  nested function of that name, acting on the pair of \<open>visited\<close> and \<open>order\<close>;
  \<open>visit_children\<close> is its loop over the children. \<open>all_pipelines\<close> is a Python set, whose
  iteration order is not fixed: \<open>topological_sort\<close> takes that order as the list \<open>ps\<close>.
\<close>

function visit :: "adjacency \<Rightarrow> nat \<Rightarrow> nat set \<times> nat list \<Rightarrow> nat set \<times> nat list"
  and visit_children ::
    "adjacency \<Rightarrow> nat list \<Rightarrow> nat set \<times> nat list \<Rightarrow> nat set \<times> nat list"
where
  "visit adj p (visited, order) =
     (if p \<in> visited then (visited, order)
      else (case visit_children adj (children_of adj p) (insert p visited, order) of
              (visited', order') \<Rightarrow> (visited', order' @ [p])))"
| "visit_children adj [] s = s"
| "visit_children adj (c # cs) s = visit_children adj cs (visit adj c s)"
  by pat_completeness auto

definition all_pipelines :: "adjacency \<Rightarrow> nat set" where
  "all_pipelines adj = fst ` set adj \<union> (\<Union>(p, children) \<in> set adj. set children)"

definition roots :: "heap \<Rightarrow> nat list \<Rightarrow> nat list" where
  "roots h ps = filter (\<lambda>p. parents (h p) = []) ps"

fun visit_roots :: "adjacency \<Rightarrow> nat list \<Rightarrow> nat set \<times> nat list \<Rightarrow> nat set \<times> nat list" where
  "visit_roots adj [] s = s"
| "visit_roots adj (root # rest) s = visit_roots adj rest (visit adj root s)"

definition topological_sort :: "heap \<Rightarrow> adjacency \<Rightarrow> nat list \<Rightarrow> nat list" where
  "topological_sort h adj ps = rev (snd (visit_roots adj (roots h ps) ({}, [])))"

text \<open>
  \<open>PipelineComposition.run\<close> (pipeline.py, lines 446-449). The result is the exception
  that left it, if any, the file system and the heap, and the pipelines whose \<open>run\<close> was
  called, in call order.
\<close>

fun run_pipelines ::
  "pickle \<Rightarrow> nat \<Rightarrow> filesystem \<Rightarrow> heap \<Rightarrow> nat list \<Rightarrow>
     (exn option \<times> filesystem \<times> heap \<times> nat list) option" where
  "run_pipelines pk fuel fs h [] = Some (None, fs, h, [])"
| "run_pipelines pk fuel fs h (p # rest) =
     (case run pk fuel fs h p of
        None \<Rightarrow> None
      | Some (Some e, fs', h', called) \<Rightarrow> Some (Some e, fs', h', [p])
      | Some (None, fs', h', called) \<Rightarrow>
          (case run_pipelines pk fuel fs' h' rest of
             None \<Rightarrow> None
           | Some (e, fs'', h'', later) \<Rightarrow> Some (e, fs'', h'', p # later)))"

definition PipelineComposition_run ::
  "pickle \<Rightarrow> nat \<Rightarrow> filesystem \<Rightarrow> heap \<Rightarrow> adjacency \<Rightarrow> nat list \<Rightarrow>
     (exn option \<times> filesystem \<times> heap \<times> nat list) option" where
  "PipelineComposition_run pk fuel fs h adj ps =
     run_pipelines pk fuel fs h (topological_sort h adj ps)"

text \<open>
  The graph of an adjacency dictionary, and the relation "\<open>a\<close> comes before \<open>b\<close> in the
  list".
\<close>

definition edges :: "adjacency \<Rightarrow> (nat \<times> nat) set" where
  "edges adj = {(p, c). c \<in> set (children_of adj p)}"

fun precedes :: "'a list \<Rightarrow> 'a \<Rightarrow> 'a \<Rightarrow> bool" where
  "precedes [] a b = False"
| "precedes (x # xs) a b = (if x = a then b \<in> set xs else precedes xs a b)"

section \<open>Cache wrappers\<close>

text \<open>
  \<open>inspect.Signature.bind\<close>: positional arguments first (\<open>bind_positional\<close>, which also
  returns the parameters left for the keyword phase), then keyword arguments
  (\<open>bind_keywords\<close>, which remembers the \<open>**kwargs\<close> parameter). A call that does not fit
  the signature raises \<open>TypeError\<close>.
\<close>

fun bind_positional ::
  "param list \<Rightarrow> val list \<Rightarrow> pydict \<Rightarrow> pydict \<Rightarrow> exn + (pydict \<times> param list)" where
  "bind_positional [] [] kwargs arguments = Inr (arguments, [])"
| "bind_positional (q # qs) [] kwargs arguments =
     (if kind q = VAR_POSITIONAL then Inr (arguments, qs)
      else if map_of kwargs (pname q) \<noteq> None then Inr (arguments, q # qs)
      else if kind q = VAR_KEYWORD \<or> default q \<noteq> None then Inr (arguments, q # qs)
      else Inl TypeError)"
| "bind_positional [] (a # as) kwargs arguments = Inl TypeError"
| "bind_positional (q # qs) (a # as) kwargs arguments =
     (if kind q = VAR_KEYWORD \<or> kind q = KEYWORD_ONLY then Inl TypeError
      else if kind q = VAR_POSITIONAL
      then Inr (AList.update (pname q) (VTuple (a # as)) arguments, qs)
      else if map_of kwargs (pname q) \<noteq> None then Inl TypeError
      else bind_positional qs as kwargs (AList.update (pname q) a arguments))"

fun bind_keywords :: "param list \<Rightarrow> pydict \<Rightarrow> pydict \<Rightarrow> param option \<Rightarrow> exn + pydict" where
  "bind_keywords [] kwargs arguments kwargs_param =
     (if kwargs \<noteq> []
      then (case kwargs_param of
              Some q \<Rightarrow> Inr (AList.update (pname q) (VDict kwargs) arguments)
            | None \<Rightarrow> Inl TypeError)
      else Inr arguments)"
| "bind_keywords (q # qs) kwargs arguments kwargs_param =
     (if kind q = VAR_KEYWORD then bind_keywords qs kwargs arguments (Some q)
      else if kind q = VAR_POSITIONAL then bind_keywords qs kwargs arguments kwargs_param
      else (case map_of kwargs (pname q) of
              None \<Rightarrow>
                (if default q = None then Inl TypeError
                 else bind_keywords qs kwargs arguments kwargs_param)
            | Some v \<Rightarrow>
                bind_keywords qs (AList.delete (pname q) kwargs)
                  (AList.update (pname q) v arguments) kwargs_param))"

definition bind :: "param list \<Rightarrow> val list \<Rightarrow> pydict \<Rightarrow> exn + pydict" where
  "bind sig args kwargs =
     (case bind_positional sig args kwargs [] of
        Inl e \<Rightarrow> Inl e
      | Inr (arguments, rest) \<Rightarrow> bind_keywords rest kwargs arguments None)"

text \<open>
  \<open>inspect.BoundArguments.apply_defaults\<close>: the new arguments are built from the
  parameters of the signature, in their order; an entry of \<open>arguments\<close> whose key is not
  a parameter name is not carried over.
\<close>

fun new_arguments :: "param list \<Rightarrow> pydict \<Rightarrow> pydict" where
  "new_arguments [] arguments = []"
| "new_arguments (q # qs) arguments =
     (case map_of arguments (pname q) of
        Some v \<Rightarrow> (pname q, v) # new_arguments qs arguments
      | None \<Rightarrow>
          (case default q of
             Some d \<Rightarrow> (pname q, d) # new_arguments qs arguments
           | None \<Rightarrow>
               if kind q = VAR_POSITIONAL then (pname q, VTuple []) # new_arguments qs arguments
               else if kind q = VAR_KEYWORD then (pname q, VDict []) # new_arguments qs arguments
               else new_arguments qs arguments))"

definition apply_defaults :: "param list \<Rightarrow> pydict \<Rightarrow> pydict" where
  "apply_defaults sig arguments = dict_of_items (new_arguments sig arguments)"

text \<open>
  The two capabilities the wrappers call are parameters of the model: \<open>dumps\<close> is
  \<open>cloudpickle.dumps\<close> (\<open>None\<close> when it raises), \<open>sha256\<close> gives the digest as a number.
  \<open>hexdigest\<close> writes a digest as 64 hexadecimal digits.
\<close>

definition hexchar :: "nat \<Rightarrow> char" where
  "hexchar n = ''0123456789abcdef'' ! (n mod 16)"

fun hex_of :: "nat \<Rightarrow> nat \<Rightarrow> string" where
  "hex_of 0 n = []"
| "hex_of (Suc k) n = hex_of k (n div 16) @ [hexchar n]"

definition hexdigest :: "nat \<Rightarrow> string" where
  "hexdigest d = hex_of 64 d"

text \<open>
  \<open>InMemoryCacheWrapper.execute\<close> (cache.py, lines 95-124). \<open>cache\<close> is the class
  attribute, one dictionary for all instances, so it is passed in and returned. The
  third component of the result counts the calls of the wrapped step's \<open>execute\<close>.
\<close>

definition InMemoryCacheWrapper_hash_key ::
  "(val \<Rightarrow> bytes option) \<Rightarrow> (bytes \<Rightarrow> nat) \<Rightarrow> step \<Rightarrow> val list \<Rightarrow> pydict \<Rightarrow> exn + string" where
  "InMemoryCacheWrapper_hash_key dumps sha256 s args kwargs =
     (case bind (signature s) args kwargs of
        Inl e \<Rightarrow> Inl e
      | Inr arguments \<Rightarrow>
          (let init_params = step_dict s;
               arguments' = apply_defaults (signature s) (dict_update arguments init_params)
           in case dumps (VDict arguments') of
                None \<Rightarrow> Inl ValueError
              | Some serialized \<Rightarrow> Inr (hexdigest (sha256 serialized))))"

definition InMemoryCacheWrapper_execute ::
  "(val \<Rightarrow> bytes option) \<Rightarrow> (bytes \<Rightarrow> nat) \<Rightarrow> step \<Rightarrow> val list \<Rightarrow> pydict \<Rightarrow>
     (string \<rightharpoonup> val) \<Rightarrow> (exn + val) \<times> (string \<rightharpoonup> val) \<times> nat" where
  "InMemoryCacheWrapper_execute dumps sha256 s args kwargs cache =
     (case InMemoryCacheWrapper_hash_key dumps sha256 s args kwargs of
        Inl e \<Rightarrow> (Inl e, cache, 0)
      | Inr hash_key \<Rightarrow>
          (case cache hash_key of
             Some v \<Rightarrow> (Inr v, cache, 0)
           | None \<Rightarrow>
               (case execute s args kwargs of
                  Inl e \<Rightarrow> (Inl e, cache, 1)
                | Inr result \<Rightarrow> (Inr result, cache(hash_key \<mapsto> result), 1))))"






text \<open>The step of tests/test\_cache.py: \<open>execute(self, x=0)\<close> returns \<open>self.value + x\<close>.\<close>

definition DummyStepForCache :: "string \<Rightarrow> int \<Rightarrow> step" where
  "DummyStepForCache n v =
     \<lparr>name = n, config = [(''value'', VInt v)],
      signature = [\<lparr>pname = ''x'', kind = POSITIONAL_OR_KEYWORD, default = Some (VInt 0)\<rparr>],
      execute = (\<lambda>args kwargs.
         case bind [\<lparr>pname = ''x'', kind = POSITIONAL_OR_KEYWORD, default = Some (VInt 0)\<rparr>]
                args kwargs of
           Inl e \<Rightarrow> Inl e
         | Inr arguments \<Rightarrow>
             (case map_of arguments ''x'' of
                None \<Rightarrow> Inr (VInt v)
              | Some (VInt x) \<Rightarrow> Inr (VInt (v + x))
              | Some u \<Rightarrow> Inl TypeError)),
      inverse = None\<rparr>"

section \<open>Example objects\<close>

text \<open>
  An empty file system, and a pickle that writes an integer as its sign and its absolute
  value and raises for any other value, having written nothing.
\<close>

definition empty_fs :: filesystem where
  "empty_fs = \<lparr>files = [], dirs = []\<rparr>"

definition example_pickle :: pickle where
  "example_pickle =
     \<lparr>pickle_dump = (\<lambda>v. case v of
          VInt i \<Rightarrow> Inr [if i < 0 then 1 else 0, nat \<bar>i\<bar>]
        | other \<Rightarrow> Inl (PicklingError, [])),
      pickle_load = (\<lambda>b. case b of
          [] \<Rightarrow> Inl EOFError
        | [sign, n] \<Rightarrow> Inr (VInt (if sign = 0 then int n else - int n))
        | other \<Rightarrow> Inl UnpicklingError)\<rparr>"

text \<open>
  \<open>memory_pipeline\<close> is \<open>Pipeline(name, steps, optimize_arftifacts_memory=False)\<close> and
  \<open>disk_pipeline\<close> is \<open>Pipeline(name, steps)\<close> made on the empty file system, together with
  the file system it leaves.
\<close>

definition memory_pipeline :: "string \<Rightarrow> step list \<Rightarrow> pipeline" where
  "memory_pipeline n ss = fst (projr (Pipeline_init n ss False empty_fs))"


definition empty_heap :: heap where
  "empty_heap = (\<lambda>a. memory_pipeline ''default_pipeline'' [])"

text \<open>
  A child pipeline with an empty store whose parent holds the artifact \<open>x = 5\<close>, and a step
  \<open>execute(self, pipeline, x=0)\<close> that returns \<open>{"y": x}\<close>.
\<close>

definition child_parent_heap :: heap where
  "child_parent_heap =
     add_parent (snd (snd (save_artifact example_pickle empty_fs empty_heap 1 ''x'' (VInt 5)))) 0 1"

definition optional_x_step :: step where
  "optional_x_step =
     \<lparr>name = ''Step'', config = [],
      signature = [\<lparr>pname = ''pipeline'', kind = POSITIONAL_OR_KEYWORD, default = None\<rparr>,
                   \<lparr>pname = ''x'', kind = POSITIONAL_OR_KEYWORD, default = Some (VInt 0)\<rparr>],
      execute = (\<lambda>args kwargs.
         Inr (VDict [(''y'', case map_of kwargs ''x'' of Some v \<Rightarrow> v | None \<Rightarrow> VNone)])),
      inverse = None\<rparr>"

text \<open>Pipeline 1 was given the parent 2 before any composition is built.\<close>

definition stale_parent_heap :: heap where
  "stale_parent_heap = add_parent empty_heap 1 2"

text \<open>The diamond \<open>{0: [1, 2], 1: [3], 2: [3]}\<close> over pipelines without steps.\<close>

definition diamond :: adjacency where
  "diamond = [(0, [1, 2]), (1, [3]), (2, [3])]"

text \<open>
  A step \<open>execute(self, y)\<close> that returns \<open>{"z": y}\<close>, and the heap of the diamond in which
  pipeline 0 has the step that saves \<open>y\<close> and pipeline 3 the step that needs it.
\<close>

definition forward_step :: step where
  "forward_step =
     \<lparr>name = ''Forward'', config = [],
      signature = [\<lparr>pname = ''y'', kind = POSITIONAL_OR_KEYWORD, default = None\<rparr>],
      execute = (\<lambda>args kwargs.
         case map_of kwargs ''y'' of
           Some v \<Rightarrow> Inr (VDict [(''z'', v)])
         | None \<Rightarrow> Inl TypeError),
      inverse = None\<rparr>"

definition diamond_heap :: heap where
  "diamond_heap =
     empty_heap(0 := memory_pipeline ''A'' [optional_x_step],
                3 := memory_pipeline ''D'' [forward_step])"

text \<open>
  The scenario of the specification: a step \<open>S(x)\<close> that returns \<open>{"y": x + 1}\<close>, in a
  pipeline at address 0 with the artifact \<open>x = 5\<close> saved beforehand; a step whose body
  raises; and a pipeline whose only step has no required parameter.
\<close>

definition increment_step :: step where
  "increment_step =
     \<lparr>name = ''S'', config = [],
      signature = [\<lparr>pname = ''x'', kind = POSITIONAL_OR_KEYWORD, default = None\<rparr>],
      execute = (\<lambda>args kwargs.
         case map_of kwargs ''x'' of
           Some (VInt x) \<Rightarrow> Inr (VDict [(''y'', VInt (x + 1))])
         | other \<Rightarrow> Inl TypeError),
      inverse = None\<rparr>"

definition failing_step :: step where
  "failing_step =
     \<lparr>name = ''F'', config = [], signature = [],
      execute = (\<lambda>args kwargs. Inl (StepError ''boom'')),
      inverse = None\<rparr>"

definition scenario_heap :: "step list \<Rightarrow> heap" where
  "scenario_heap ss =
     snd (snd (save_artifact example_pickle empty_fs
                 (empty_heap(0 := memory_pipeline ''P'' ss)) 0 ''x'' (VInt 5)))"

definition optional_heap :: heap where
  "optional_heap = empty_heap(0 := memory_pipeline ''P'' [optional_x_step])"














section \<open>Invariants of the depth-first traversal\<close>

text \<open>
  \<open>post_ok\<close>: every pipeline of the accumulated list has all its children before it.
  \<open>dfs_inv\<close>: the list has no repetition, holds visited pipelines only and is \<open>post_ok\<close>.
  \<open>gray\<close>: the pipelines that are visited and not yet appended, that is, those whose
  \<open>visit\<close> is still running.
\<close>

definition post_ok :: "adjacency \<Rightarrow> nat list \<Rightarrow> bool" where
  "post_ok adj ord = (\<forall>i < length ord. set (children_of adj (ord ! i)) \<subseteq> set (take i ord))"

definition dfs_inv :: "adjacency \<Rightarrow> nat set \<times> nat list \<Rightarrow> bool" where
  "dfs_inv adj s = (distinct (snd s) \<and> set (snd s) \<subseteq> fst s \<and> post_ok adj (snd s))"

definition gray :: "nat set \<times> nat list \<Rightarrow> nat set" where
  "gray s = fst s - set (snd s)"

section \<open>Termination of the depth-first traversal\<close>

lemma visit_mono_dom:
  "visit_visit_children_dom (Inl (adj, p, s)) \<Longrightarrow> fst s \<subseteq> fst (visit adj p s)"
  "visit_visit_children_dom (Inr (adj, cs, s)) \<Longrightarrow> fst s \<subseteq> fst (visit_children adj cs s)"
proof (induction adj p s and adj cs s rule: visit_visit_children.pinduct)
  case (1 adj p visited order)
  then show ?case by (auto simp: visit.psimps split: prod.splits)
next
  case (2 adj s)
  then show ?case by (simp add: visit_children.psimps)
next
  case (3 adj c cs s)
  then show ?case by (auto simp: visit_children.psimps)
qed

termination visit
proof (relation "inv_image (less_than <*lex*> less_than)
    (\<lambda>x. case x of
       Inl (adj, p, s) \<Rightarrow> (card (fst ` set adj - fst s), 1)
     | Inr (adj, cs, s) \<Rightarrow>
         (card (fst ` set adj - fst s), 2 * length cs + (if cs = [] then 0 else 2)))",
    goal_cases)
  case 1
  show ?case by auto
next
  case (2 adj p visited order)
  show ?case
  proof (cases "p \<in> fst ` set adj")
    case True
    with 2 have "card (fst ` set adj - insert p visited) < card (fst ` set adj - visited)"
      by (intro psubset_card_mono) auto
    then show ?thesis by simp
  next
    case False
    then have "map_of adj p = None" by (simp add: map_of_eq_None_iff)
    then show ?thesis using False by (simp add: children_of_def)
  qed
next
  case (3 adj c cs s)
  then show ?case by (cases s) simp
next
  case (4 adj c cs s)
  have "fst ` set adj - fst (visit adj c s) \<subseteq> fst ` set adj - fst s"
    using visit_mono_dom(1)[OF 4] by blast
  then have "card (fst ` set adj - fst (visit adj c s)) \<le> card (fst ` set adj - fst s)"
    by (intro card_mono) auto
  then show ?case by (cases s; cases "visit adj c s") auto
qed

section \<open>The example pipelines\<close>

lemma memory_pipeline_eq:
  "memory_pipeline n ss =
     \<lparr>pipeline_name = n, steps = ss, artifact_manager = ArtifactInMemory Map.empty,
      finished = False, parents = [], processed_stack = []\<rparr>"
  by (simp add: memory_pipeline_def Pipeline_init_def)












section \<open>Artifact lookup through the parents\<close>

text \<open>
  Claim C1 says that every lookup, required or not, goes on to the parents when the
  pipeline's own store misses. On the heap \<open>child_parent_heap\<close> the required lookup of \<open>x\<close>
  from the child finds the parent's 5, but the non-raising lookup with default 0 returns the
  default, and so does the binding of the optional parameter \<open>x=0\<close>: the store raises
  only when \<open>raise_not_found\<close> is set, so the handler that walks the parents is never
  entered for a non-raising lookup.
\<close>

theorem get_artifact_optional_ignores_parents:
  "get_artifact pk (Suc (Suc fuel)) fs child_parent_heap 0 ''x'' VNone True
     = Some (Inr (VInt 5)) \<and>
   get_artifact pk (Suc (Suc fuel)) fs child_parent_heap 0 ''x'' (VInt 0) False
     = Some (Inr (VInt 0)) \<and>
   fill_params_from_step pk (Suc (Suc fuel)) fs child_parent_heap 0 optional_x_step
     = Some (Inr [(''pipeline'', VPipeline 0), (''x'', VInt 0)])"
  by (simp add: child_parent_heap_def optional_x_step_def add_parent_def save_artifact_def
      empty_heap_def memory_pipeline_eq manager_save_artifact_def manager_get_artifact_def
      ArtifactInMemory_get_artifact_def ArtifactInMemory_save_artifact_def
      fill_params_from_step_def get_execute_params_def)

section \<open>Parents after the construction of a composition\<close>

text \<open>
  Claim C2 says that the construction resets the parents of every pipeline of the
  adjacency, children included. For the dictionary \<open>{0: [1]}\<close> and a pipeline 1 that
  already had the parent 2, pipeline 1 ends with the parents \<open>[2, 0]\<close>: only the keys of
  the dictionary are reset.
\<close>

theorem set_parents_keeps_stale_parent:
  "parents (PipelineComposition_init stale_parent_heap [(0, [1])] 1) = [2, 0]"
  by (simp add: PipelineComposition_init_def set_parents_def stale_parent_heap_def
      add_parent_def empty_heap_def memory_pipeline_eq)

section \<open>The key of the in-memory cache\<close>

text \<open>
  Claim C3 says that two calls that differ in a configuration field get different cache
  keys. For the in-memory wrapper, two steps that differ in the field \<open>value\<close> (10 and 5)
  and are called with the same argument 3 get the same key, whatever the serializer and
  the hash are: \<open>apply_defaults\<close> runs after the configuration was merged into the
  arguments and keeps the parameters of the signature only. The second wrapper then
  returns what the first one stored, without calling its own step, whose body returns 8.
\<close>

theorem memory_key_ignores_config:
  "InMemoryCacheWrapper_hash_key dumps sha256 (DummyStepForCache ''step2'' 10) [VInt 3] []
     = InMemoryCacheWrapper_hash_key dumps sha256 (DummyStepForCache ''step2'' 5) [VInt 3] [] \<and>
   step_dict (DummyStepForCache ''step2'' 10) \<noteq> step_dict (DummyStepForCache ''step2'' 5) \<and>
   execute (DummyStepForCache ''step2'' 5) [VInt 3] [] = Inr (VInt 8) \<and>
   InMemoryCacheWrapper_execute dumps sha256 (DummyStepForCache ''step2'' 5) [VInt 3] []
       (fst (snd (InMemoryCacheWrapper_execute dumps sha256
                   (DummyStepForCache ''step2'' 10) [VInt 3] [] Map.empty)))
     = (if dumps (VDict [(''x'', VInt 3)]) = None then (Inl ValueError, Map.empty, 0)
        else (Inr (VInt 13),
              [hexdigest (sha256 (the (dumps (VDict [(''x'', VInt 3)])))) \<mapsto> VInt 13], 0))"
  by (auto simp add: InMemoryCacheWrapper_hash_key_def InMemoryCacheWrapper_execute_def
      DummyStepForCache_def bind_def step_dict_def dict_update_def apply_defaults_def
      dict_of_items_def)

section \<open>The inherited inverse transform\<close>

text \<open>
  Claim C4, as amended: for a step that does not override \<open>execute_inverse\<close> and for
  every pipeline and keyword arguments, \<open>execute_inverse\<close> returns the empty dictionary.
\<close>

theorem execute_inverse_default:
  "inverse s = None \<Longrightarrow> execute_inverse s pipeline kwargs = Inr []"
  by (simp add: execute_inverse_def)

theorem execute_inverse_default_witness:
  "inverse (DummyStepForCache ''step1'' 5) = None \<and>
   execute_inverse (DummyStepForCache ''step1'' 5) 0 [(''a'', VInt 1)] = Inr []"
  using execute_inverse_default [of "DummyStepForCache ''step1'' 5" 0 "[(''a'', VInt 1)]"]
  by (simp add: DummyStepForCache_def)

text \<open>
  Claim C4 as stated (the keyword arguments come back unchanged) fails for the keyword
  arguments \<open>{"a": 1}\<close>.
\<close>

theorem execute_inverse_identity_counterexample:
  "execute_inverse (DummyStepForCache ''step1'' 5) 0 [(''a'', VInt 1)] \<noteq> Inr [(''a'', VInt 1)]"
  by (simp add: execute_inverse_def DummyStepForCache_def)

section \<open>Running a pipeline\<close>

lemma get_artifact_cong:
  assumes "\<forall>q. artifact_manager (h q) = artifact_manager (h' q) \<and> parents (h q) = parents (h' q)"
  shows "get_artifact pk fuel fs h self n d r = get_artifact pk fuel fs h' self n d r"
    and "get_artifact_parents pk fuel fs h ps n d r = get_artifact_parents pk fuel fs h' ps n d r"
  using assms
proof (induction pk fuel fs h self n d r and pk fuel fs h ps n d r
    rule: get_artifact_get_artifact_parents.induct)
  case (1 pk fs h self artifact_name dflt raise_not_found)
  show ?case by simp
next
  case (2 pk fuel fs h self artifact_name dflt raise_not_found)
  then show ?case by (simp split: sum.splits exn.splits)
next
  case (3 pk fuel fs h artifact_name dflt raise_not_found)
  show ?case by simp
next
  case (4 pk fuel fs h parent rest artifact_name dflt raise_not_found)
  then show ?case by (simp split: sum.splits exn.splits option.splits)
qed

lemma fill_params_loop_cong:
  assumes "\<forall>q. artifact_manager (h q) = artifact_manager (h' q) \<and> parents (h q) = parents (h' q)"
  shows "fill_params_loop pk fuel fs h self qs params
           = fill_params_loop pk fuel fs h' self qs params"
  using assms
  by (induction qs arbitrary: params)
     (simp_all add: get_artifact_cong(1)[OF assms] split: option.splits sum.splits)

lemma fill_params_finished:
  "fill_params_from_step pk fuel fs (h(p := (h p)\<lparr>finished := b\<rparr>)) self s
     = fill_params_from_step pk fuel fs h self s"
  unfolding fill_params_from_step_def by (rule fill_params_loop_cong) simp

lemma save_artifact_frame:
  assumes "save_artifact pk fs h self n v = (e, fs', h')"
  shows "finished (h' q) = finished (h q)" "steps (h' q) = steps (h q)"
    "parents (h' q) = parents (h q)" "processed_stack (h' q) = processed_stack (h q)"
    "q \<noteq> self \<Longrightarrow> h' q = h q"
  using assms by (cases "q = self"; auto simp: save_artifact_def split: prod.splits)+

lemma save_step_artifacts_frame:
  assumes "save_step_artifacts pk fs h self d = (e, fs', h')"
  shows "finished (h' q) = finished (h q) \<and> steps (h' q) = steps (h q) \<and>
         parents (h' q) = parents (h q) \<and> processed_stack (h' q) = processed_stack (h q) \<and>
         (q \<noteq> self \<longrightarrow> h' q = h q)"
  using assms
proof (induction d arbitrary: fs h)
  case Nil
  then show ?case by simp
next
  case (Cons a d)
  obtain n v where a: "a = (n, v)" by (cases a)
  obtain e1 fs1 h1 where s: "save_artifact pk fs h self n v = (e1, fs1, h1)"
    by (metis prod_cases3)
  note f = save_artifact_frame[OF s, of q]
  show ?case
  proof (cases e1)
    case None
    with Cons.prems a s have "save_step_artifacts pk fs1 h1 self d = (e, fs', h')" by simp
    from Cons.IH[OF this] f show ?thesis by simp
  next
    case (Some x)
    with Cons.prems a s have "h' = h1" by simp
    with f show ?thesis by simp
  qed
qed

lemma run_steps_completed:
  assumes "run_steps pk fuel fs h self pre = Some (None, fs1, h1, c1)"
  shows "c1 = pre \<and> processed_stack (h1 self) = processed_stack (h self) @ pre \<and>
         finished (h1 self) \<and>
         run_steps pk fuel fs h self (pre @ rest) =
           (case run_steps pk fuel fs1 (h1(self := (h1 self)\<lparr>finished := finished (h self)\<rparr>))
                   self rest of
              None \<Rightarrow> None
            | Some (e, fs', h', c) \<Rightarrow> Some (e, fs', h', pre @ c))"
  using assms
proof (induction pre arbitrary: fs h fs1 h1 c1)
  case Nil
  then have h1: "h1 = h(self := (h self)\<lparr>finished := True\<rparr>)" and c1: "c1 = []"
    and fs1: "fs1 = fs" by simp_all
  have eq: "h1(self := (h1 self)\<lparr>finished := finished (h self)\<rparr>) = h"
    by (simp add: h1)
  have "run_steps pk fuel fs h self ([] @ rest) =
          (case run_steps pk fuel fs1 (h1(self := (h1 self)\<lparr>finished := finished (h self)\<rparr>))
                  self rest of
             None \<Rightarrow> None
           | Some (e, fs', h', c) \<Rightarrow> Some (e, fs', h', [] @ c))"
    unfolding eq fs1 by (simp split: option.splits)
  moreover have "c1 = [] \<and> processed_stack (h1 self) = processed_stack (h self) @ [] \<and>
      finished (h1 self)"
    by (simp add: h1 c1)
  ultimately show ?case by blast
next
  case (Cons s pre)
  from Cons.prems obtain params r d fsa ha c' where
    fp: "fill_params_from_step pk fuel fs h self s = Some (Inr params)"
    and ex: "execute s [] params = Inr r"
    and ats: "artifacts_to_save r = Inr d"
    and sv: "save_step_artifacts pk fs h self d = (None, fsa, ha)"
    and rec: "run_steps pk fuel fsa (ha(self := (ha self)\<lparr>processed_stack :=
                   processed_stack (ha self) @ [s]\<rparr>)) self pre
              = Some (None, fs1, h1, c')"
    and c1: "c1 = s # c'"
    by (auto simp: Let_def split: option.splits sum.splits prod.splits)
  define h2 where "h2 = ha(self := (ha self)\<lparr>processed_stack :=
                   processed_stack (ha self) @ [s]\<rparr>)"
  define hk where "hk = h1(self := (h1 self)\<lparr>finished := finished (h self)\<rparr>)"
  have rec': "run_steps pk fuel fsa h2 self pre = Some (None, fs1, h1, c')"
    using rec by (simp only: h2_def)
  note fr = save_step_artifacts_frame[OF sv, of self]
  have fin: "finished (h2 self) = finished (h self)"
    and ps: "processed_stack (h2 self) = processed_stack (h self) @ [s]"
    using fr by (simp_all add: h2_def)
  from Cons.IH[OF rec']
  have ih1: "c' = pre"
    and ih2: "processed_stack (h1 self) = processed_stack (h2 self) @ pre"
    and ih3: "finished (h1 self)"
    and ih4: "run_steps pk fuel fsa h2 self (pre @ rest) =
      (case run_steps pk fuel fs1 (h1(self := (h1 self)\<lparr>finished := finished (h2 self)\<rparr>))
              self rest of
         None \<Rightarrow> None
       | Some (e, fs', h', c) \<Rightarrow> Some (e, fs', h', pre @ c))"
    by blast+
  have ih4': "run_steps pk fuel fsa h2 self (pre @ rest) =
      (case run_steps pk fuel fs1 hk self rest of
         None \<Rightarrow> None
       | Some (e, fs', h', c) \<Rightarrow> Some (e, fs', h', pre @ c))"
    using ih4 by (simp only: fin hk_def)
  have step: "run_steps pk fuel fs h self ((s # pre) @ rest) =
      (case run_steps pk fuel fsa h2 self (pre @ rest) of
         None \<Rightarrow> None
       | Some (e, fs', h', c) \<Rightarrow> Some (e, fs', h', s # c))"
    using fp ex ats sv by (simp add: Let_def h2_def)
  have "run_steps pk fuel fs h self ((s # pre) @ rest) =
      (case run_steps pk fuel fs1 hk self rest of
         None \<Rightarrow> None
       | Some (e, fs', h', c) \<Rightarrow> Some (e, fs', h', (s # pre) @ c))"
    unfolding step ih4' by (cases "run_steps pk fuel fs1 hk self rest") auto
  then have "run_steps pk fuel fs h self ((s # pre) @ rest) =
      (case run_steps pk fuel fs1 (h1(self := (h1 self)\<lparr>finished := finished (h self)\<rparr>))
              self rest of
         None \<Rightarrow> None
       | Some (e, fs', h', c) \<Rightarrow> Some (e, fs', h', (s # pre) @ c))"
    by (simp only: hk_def)
  moreover have "c1 = s # pre \<and>
      processed_stack (h1 self) = processed_stack (h self) @ s # pre \<and> finished (h1 self)"
    using ih1 ih2 ih3 c1 ps by simp
  ultimately show ?case by blast
qed

lemma run_steps_frame:
  assumes "run_steps pk fuel fs h self ss = Some (e, fs', h', c)"
  shows "steps (h' q) = steps (h q) \<and> parents (h' q) = parents (h q) \<and>
         (q \<noteq> self \<longrightarrow> h' q = h q)"
  using assms
proof (induction ss arbitrary: fs h c)
  case Nil
  then show ?case by auto
next
  case (Cons s ss)
  show ?case
  proof (cases "fill_params_from_step pk fuel fs h self s")
    case None
    with Cons.prems show ?thesis by simp
  next
    case (Some fp)
    show ?thesis
    proof (cases fp)
      case (Inl x)
      with Some Cons.prems show ?thesis by simp
    next
      case (Inr params)
      show ?thesis
      proof (cases "execute s [] params")
        case (Inl x)
        with Some Inr Cons.prems show ?thesis by simp
      next
        case r: (Inr r)
        show ?thesis
        proof (cases "artifacts_to_save r")
          case (Inl x)
          with Some Inr r Cons.prems show ?thesis by simp
        next
          case d: (Inr d)
          obtain e1 fsa ha where sv: "save_step_artifacts pk fs h self d = (e1, fsa, ha)"
            by (metis prod_cases3)
          note fr = save_step_artifacts_frame[OF sv, of q]
          show ?thesis
          proof (cases e1)
            case (Some x)
            with \<open>fill_params_from_step pk fuel fs h self s = Some fp\<close> Inr r d sv Cons.prems
            have "h' = ha" by simp
            with fr show ?thesis by simp
          next
            case None
            define h2 where "h2 = ha(self := (ha self)\<lparr>processed_stack :=
                   processed_stack (ha self) @ [s]\<rparr>)"
            from \<open>fill_params_from_step pk fuel fs h self s = Some fp\<close> Inr r d sv None Cons.prems
            obtain c' where "run_steps pk fuel fsa h2 self ss = Some (e, fs', h', c')"
              by (auto simp: Let_def h2_def split: option.splits)
            from Cons.IH[OF this] fr show ?thesis by (cases "q = self") (auto simp: h2_def)
          qed
        qed
      qed
    qed
  qed
qed

lemma run_frame:
  assumes "run pk fuel fs h self = Some (e, fs', h', c)"
  shows "steps (h' q) = steps (h q) \<and> parents (h' q) = parents (h q) \<and>
         (q \<noteq> self \<longrightarrow> h' q = h q)"
proof (cases "finished (h self)")
  case True
  with assms show ?thesis by (simp add: run_def)
next
  case False
  with assms have "run_steps pk fuel fs h self (steps (h self)) = Some (e, fs', h', c)"
    by (simp add: run_def)
  from run_steps_frame[OF this] show ?thesis .
qed

lemma run_completed:
  assumes "run pk fuel fs h self = Some (None, fs', h', c)"
  shows "finished (h' self) \<and>
         c = (if finished (h self) then [] else steps (h self)) \<and>
         processed_stack (h' self) = processed_stack (h self) @ c"
proof (cases "finished (h self)")
  case True
  with assms show ?thesis by (simp add: run_def)
next
  case False
  with assms have "run_steps pk fuel fs h self (steps (h self)) = Some (None, fs', h', c)"
    by (simp add: run_def)
  from run_steps_completed[OF this] False show ?thesis by simp
qed

text \<open>
  Claim C6: when the steps \<open>pre\<close> before the step \<open>s\<close> complete (their loop alone runs to
  its end) and the body of \<open>s\<close>, called with the parameters bound for it, raises \<open>e\<close>,
  then \<open>run\<close> is left by \<open>e\<close> itself, the steps called are \<open>pre\<close> and \<open>s\<close> and none of the
  later ones, \<open>finished\<close> is still false and the history stack has grown by \<open>pre\<close> exactly.
  This holds for both stores.
\<close>

theorem run_aborts_on_step_failure:
  assumes "\<not> finished (h self)"
    and "steps (h self) = pre @ s # post"
    and "run_steps pk fuel fs h self pre = Some (None, fs1, h1, called)"
    and "fill_params_from_step pk fuel fs1 h1 self s = Some (Inr params)"
    and "execute s [] params = Inl e"
  shows "\<exists>fs' h'. run pk fuel fs h self = Some (Some e, fs', h', pre @ [s]) \<and>
              \<not> finished (h' self) \<and>
              processed_stack (h' self) = processed_stack (h self) @ pre"
proof -
  let ?hk = "h1(self := (h1 self)\<lparr>finished := finished (h self)\<rparr>)"
  note c = run_steps_completed[OF assms(3), where rest = "s # post"]
  have "fill_params_from_step pk fuel fs1 ?hk self s = Some (Inr params)"
    using assms(4) by (simp add: fill_params_finished)
  then have "run_steps pk fuel fs1 ?hk self (s # post) = Some (Some e, fs1, ?hk, [s])"
    using assms(5) by simp
  with c have "run_steps pk fuel fs h self (pre @ s # post) = Some (Some e, fs1, ?hk, pre @ [s])"
    by simp
  then have "run pk fuel fs h self = Some (Some e, fs1, ?hk, pre @ [s])"
    using assms(1,2) by (simp add: run_def)
  moreover have "\<not> finished (?hk self)" using assms(1) by simp
  moreover have "processed_stack (?hk self) = processed_stack (h self) @ pre"
    using c by simp
  ultimately show ?thesis by blast
qed

theorem run_aborts_on_step_failure_witness:
  "\<not> finished (scenario_heap [increment_step, failing_step, increment_step] 0) \<and>
   steps (scenario_heap [increment_step, failing_step, increment_step] 0)
     = [increment_step] @ failing_step # [increment_step] \<and>
   (\<exists>fs' h'. run example_pickle (Suc 0) empty_fs
                (scenario_heap [increment_step, failing_step, increment_step]) 0
            = Some (Some (StepError ''boom''), fs', h', [increment_step, failing_step]) \<and>
         \<not> finished (h' 0) \<and> processed_stack (h' 0) = [increment_step])"
proof -
  let ?H = "scenario_heap [increment_step, failing_step, increment_step]"
  have nf: "\<not> finished (?H 0)"
    and st: "steps (?H 0) = [increment_step] @ failing_step # [increment_step]"
    and ps: "processed_stack (?H 0) = []"
    by (simp_all add: scenario_heap_def save_artifact_def manager_save_artifact_def
        memory_pipeline_eq)
  have "\<exists>fs1 h1. run_steps example_pickle (Suc 0) empty_fs ?H 0 [increment_step]
          = Some (None, fs1, h1, [increment_step])"
    by (simp add: scenario_heap_def save_artifact_def manager_save_artifact_def
        manager_get_artifact_def memory_pipeline_eq empty_heap_def
        fill_params_from_step_def get_execute_params_def increment_step_def
        ArtifactInMemory_get_artifact_def ArtifactInMemory_save_artifact_def)
  then obtain fs1 h1 where
    h1: "run_steps example_pickle (Suc 0) empty_fs ?H 0 [increment_step]
           = Some (None, fs1, h1, [increment_step])" by blast
  have fp: "fill_params_from_step example_pickle (Suc 0) fs1 h1 0 failing_step = Some (Inr [])"
    by (simp add: fill_params_from_step_def get_execute_params_def failing_step_def)
  have ex: "execute failing_step [] [] = Inl (StepError ''boom'')"
    by (simp add: failing_step_def)
  from run_aborts_on_step_failure[OF nf st h1 fp ex] ps nf st
  show ?thesis by simp
qed

text \<open>
  Claim C9: \<open>run\<close> on a finished pipeline calls no step and returns the file system and
  the heap as they were (store, history stack and flag included); a \<open>run\<close> that no
  exception leaves sets \<open>finished\<close>, so that the next \<open>run\<close> calls no step and changes
  nothing.
\<close>

theorem run_finished_is_noop:
  "(finished (h self) \<longrightarrow> run pk fuel fs h self = Some (None, fs, h, [])) \<and>
   (run pk fuel fs h self = Some (None, fs', h', called) \<longrightarrow>
      finished (h' self) \<and> run pk fuel' fs'' h' self = Some (None, fs'', h', []))"
proof -
  have "finished (h' self)" if r: "run pk fuel fs h self = Some (None, fs', h', called)"
    using run_completed[OF r] by simp
  then show ?thesis by (simp add: run_def)
qed

theorem run_finished_is_noop_witness:
  "\<exists>fs' h'. run example_pickle (Suc 0) empty_fs (scenario_heap [increment_step]) 0
             = Some (None, fs', h', [increment_step]) \<and>
        get_artifact example_pickle (Suc 0) fs' h' 0 ''y'' VNone True = Some (Inr (VInt 6)) \<and>
        finished (h' 0) \<and>
        run example_pickle (Suc 0) fs' h' 0 = Some (None, fs', h', [])"
proof -
  have "\<exists>fs' h'. run example_pickle (Suc 0) empty_fs (scenario_heap [increment_step]) 0
             = Some (None, fs', h', [increment_step]) \<and>
        get_artifact example_pickle (Suc 0) fs' h' 0 ''y'' VNone True = Some (Inr (VInt 6))"
    by (simp add: run_def scenario_heap_def save_artifact_def manager_save_artifact_def
        manager_get_artifact_def memory_pipeline_eq empty_heap_def
        fill_params_from_step_def get_execute_params_def increment_step_def
        ArtifactInMemory_get_artifact_def ArtifactInMemory_save_artifact_def)
  then obtain fs' h' where
    r: "run example_pickle (Suc 0) empty_fs (scenario_heap [increment_step]) 0
          = Some (None, fs', h', [increment_step])"
    and y: "get_artifact example_pickle (Suc 0) fs' h' 0 ''y'' VNone True = Some (Inr (VInt 6))"
    by blast
  from run_finished_is_noop[of "scenario_heap [increment_step]" 0 example_pickle "Suc 0"
      empty_fs fs' h' "[increment_step]" "Suc 0" fs'] r
  have "finished (h' 0) \<and> run example_pickle (Suc 0) fs' h' 0 = Some (None, fs', h', [])"
    by blast
  with r y show ?thesis by blast
qed

section \<open>Clearing a pipeline\<close>











section \<open>The topological order of a composition\<close>

lemma post_ok_snoc:
  "post_ok adj ord \<Longrightarrow> set (children_of adj p) \<subseteq> set ord \<Longrightarrow> post_ok adj (ord @ [p])"
  by (auto simp: post_ok_def nth_append less_Suc_eq)

lemma visit_roots_eq: "visit_roots adj rs s = visit_children adj rs s"
  by (induction rs arbitrary: s) auto

lemma visit_invariant:
  shows "acyclic (edges adj) \<Longrightarrow> dfs_inv adj s \<Longrightarrow> \<forall>g \<in> gray s. (g, p) \<in> (edges adj)\<^sup>+ \<Longrightarrow>
           dfs_inv adj (visit adj p s) \<and> gray (visit adj p s) = gray s \<and>
           p \<in> set (snd (visit adj p s)) \<and> set (snd s) \<subseteq> set (snd (visit adj p s))"
    and "acyclic (edges adj) \<Longrightarrow> dfs_inv adj s \<Longrightarrow> \<forall>c \<in> set cs. \<forall>g \<in> gray s. (g, c) \<in> (edges adj)\<^sup>+ \<Longrightarrow>
           dfs_inv adj (visit_children adj cs s) \<and> gray (visit_children adj cs s) = gray s \<and>
           set cs \<subseteq> set (snd (visit_children adj cs s)) \<and>
           set (snd s) \<subseteq> set (snd (visit_children adj cs s))"
proof (induction adj p s and adj cs s rule: visit_visit_children.induct)
  case (1 adj p visited order)
  note ac = "1.prems"(1) and inv = "1.prems"(2) and reach = "1.prems"(3)
  show ?case
  proof (cases "p \<in> visited")
    case True
    have "p \<in> set order"
    proof (rule ccontr)
      assume "p \<notin> set order"
      with True have "p \<in> gray (visited, order)" by (simp add: gray_def)
      with reach have "(p, p) \<in> (edges adj)\<^sup>+" by blast
      with ac show False by (auto simp: acyclic_def)
    qed
    with True inv show ?thesis by simp
  next
    case False
    let ?s1 = "(insert p visited, order)"
    let ?r = "visit_children adj (children_of adj p) ?s1"
    have inv1: "dfs_inv adj ?s1" using inv by (auto simp: dfs_inv_def)
    have g1: "gray ?s1 = insert p (gray (visited, order))"
      using False inv by (auto simp: gray_def dfs_inv_def)
    have reach1: "\<forall>c \<in> set (children_of adj p). \<forall>g \<in> gray ?s1. (g, c) \<in> (edges adj)\<^sup>+"
    proof (intro ballI)
      fix c g assume c: "c \<in> set (children_of adj p)" and g: "g \<in> gray ?s1"
      from c have e: "(p, c) \<in> edges adj" by (simp add: edges_def)
      from g g1 have "g = p \<or> g \<in> gray (visited, order)" by auto
      then show "(g, c) \<in> (edges adj)\<^sup>+"
      proof
        assume "g = p" with e show ?thesis by auto
      next
        assume "g \<in> gray (visited, order)"
        with reach have "(g, p) \<in> (edges adj)\<^sup>+" by blast
        with e show ?thesis by (auto intro: trancl_into_trancl)
      qed
    qed
    from "1.IH"[OF False ac inv1 reach1]
    have invr: "dfs_inv adj ?r" and gr: "gray ?r = gray ?s1"
      and chr: "set (children_of adj p) \<subseteq> set (snd ?r)"
      and sub: "set order \<subseteq> set (snd ?r)" by auto
    obtain V1 ord1 where r: "?r = (V1, ord1)" by (cases ?r)
    have res: "visit adj p (visited, order) = (V1, ord1 @ [p])"
      using False r by simp
    have pg: "p \<in> V1" "p \<notin> set ord1" using gr g1 r by (auto simp: gray_def)
    have png: "p \<notin> gray (visited, order)" using False by (simp add: gray_def)
    have "dfs_inv adj (V1, ord1 @ [p])"
      using invr r pg chr by (auto simp: dfs_inv_def intro: post_ok_snoc)
    moreover have "gray (V1, ord1 @ [p]) = gray (visited, order)"
      using gr g1 r pg png by (auto simp: gray_def)
    ultimately show ?thesis using res sub r by auto
  qed
next
  case (2 adj s)
  then show ?case by simp
next
  case (3 adj c cs s)
  note ac = "3.prems"(1) and inv = "3.prems"(2) and reach = "3.prems"(3)
  have "\<forall>g \<in> gray s. (g, c) \<in> (edges adj)\<^sup>+" using reach by simp
  from "3.IH"(1)[OF ac inv this]
  have inv1: "dfs_inv adj (visit adj c s)" and g1: "gray (visit adj c s) = gray s"
    and c1: "c \<in> set (snd (visit adj c s))" and sub1: "set (snd s) \<subseteq> set (snd (visit adj c s))"
    by auto
  have "\<forall>c' \<in> set cs. \<forall>g \<in> gray (visit adj c s). (g, c') \<in> (edges adj)\<^sup>+"
    using reach g1 by simp
  from "3.IH"(2)[OF ac inv1 this] c1 sub1 g1
  show ?case by auto
qed


lemma children_of_cases:
  assumes "c \<in> set (children_of adj p)"
  obtains cs where "map_of adj p = Some cs" and "(p, cs) \<in> set adj" and "c \<in> set cs"
proof (cases "map_of adj p")
  case None
  with assms show ?thesis by (simp add: children_of_def)
next
  case (Some cs)
  then have "(p, cs) \<in> set adj" by (rule map_of_SomeD)
  with Some assms that show ?thesis by (simp add: children_of_def)
qed

lemma children_of_subset: "set (children_of adj p) \<subseteq> (\<Union>(q, children) \<in> set adj. set children)"
proof
  fix c assume "c \<in> set (children_of adj p)"
  then obtain cs where "(p, cs) \<in> set adj" "c \<in> set cs" by (rule children_of_cases)
  then show "c \<in> (\<Union>(q, children) \<in> set adj. set children)" by auto
qed

lemma visit_nodes:
  "set (snd (visit adj p s)) \<subseteq> set (snd s) \<union> insert p (\<Union>(q, children) \<in> set adj. set children)"
  "set (snd (visit_children adj cs s)) \<subseteq>
     set (snd s) \<union> set cs \<union> (\<Union>(q, children) \<in> set adj. set children)"
proof (induction adj p s and adj cs s rule: visit_visit_children.induct)
  case (1 adj p visited order)
  show ?case
  proof (cases "p \<in> visited")
    case True
    then show ?thesis by auto
  next
    case False
    from "1.IH"[OF False] children_of_subset[of adj p] False
    show ?thesis by (auto split: prod.splits)
  qed
next
  case (2 adj s)
  show ?case by simp
next
  case (3 adj c cs s)
  then show ?case by auto
qed

lemma edges_iff:
  assumes "distinct (map fst adj)"
  shows "(p, c) \<in> edges adj \<longleftrightarrow> (\<exists>cs. (p, cs) \<in> set adj \<and> c \<in> set cs)"
proof
  assume "(p, c) \<in> edges adj"
  then have "c \<in> set (children_of adj p)" by (simp add: edges_def)
  then show "\<exists>cs. (p, cs) \<in> set adj \<and> c \<in> set cs" by (rule children_of_cases) blast
next
  assume "\<exists>cs. (p, cs) \<in> set adj \<and> c \<in> set cs"
  then obtain cs where cs: "(p, cs) \<in> set adj" "c \<in> set cs" by blast
  with assms have "map_of adj p = Some cs" by simp
  with cs show "(p, c) \<in> edges adj" by (simp add: edges_def children_of_def)
qed

lemma finite_edges: "finite (edges adj)"
proof -
  have "edges adj \<subseteq> fst ` set adj \<times> (\<Union>(q, children) \<in> set adj. set children)"
  proof
    fix e assume e: "e \<in> edges adj"
    obtain p c where pc: "e = (p, c)" by (cases e)
    with e have "c \<in> set (children_of adj p)" by (simp add: edges_def)
    then obtain cs where "(p, cs) \<in> set adj" "c \<in> set cs" by (rule children_of_cases)
    then have "p \<in> fst ` set adj" "c \<in> (\<Union>(q, children) \<in> set adj. set children)"
      by (auto intro: rev_image_eqI)
    with pc show "e \<in> fst ` set adj \<times> (\<Union>(q, children) \<in> set adj. set children)" by simp
  qed
  moreover have "finite (fst ` set adj \<times> (\<Union>(q, children) \<in> set adj. set children))"
    by auto
  ultimately show ?thesis by (rule finite_subset)
qed

lemma parents_reset_parents:
  "parents (reset_parents h adj p) = (if p \<in> fst ` set adj then [] else parents (h p))"
proof (induction adj arbitrary: h)
  case Nil
  show ?case by simp
next
  case (Cons a adj)
  obtain q cs where a: "a = (q, cs)" by (cases a)
  show ?case unfolding a by (simp add: Cons.IH)
qed

lemma parents_add_parent_other: "p \<noteq> c \<Longrightarrow> parents (add_parent h c q p) = parents (h p)"
  by (simp add: add_parent_def)

lemma parents_add_children_other:
  "p \<notin> set cs \<Longrightarrow> parents (add_children h q cs p) = parents (h p)"
  by (induction h q cs rule: add_children.induct) (auto simp: parents_add_parent_other)

lemma parents_assign_parents_other:
  "\<forall>(q, cs) \<in> set adj. p \<notin> set cs \<Longrightarrow> parents (assign_parents h adj p) = parents (h p)"
  by (induction h adj rule: assign_parents.induct) (auto simp: parents_add_children_other)

lemma source_is_root:
  assumes "p \<in> fst ` set adj" and "\<forall>(q, cs) \<in> set adj. p \<notin> set cs"
  shows "parents (set_parents h adj p) = []"
  using assms by (simp add: set_parents_def parents_assign_parents_other parents_reset_parents)

lemma reach_from_source:
  assumes "wf E"
  shows "\<exists>r. (r, x) \<in> E\<^sup>* \<and> (\<forall>q. (q, r) \<notin> E)"
  using assms
proof (induction x rule: wf_induct_rule)
  case (less x)
  show ?case
  proof (cases "\<exists>y. (y, x) \<in> E")
    case True
    then obtain y where y: "(y, x) \<in> E" by blast
    from less[OF y] obtain r where "(r, y) \<in> E\<^sup>*" "\<forall>q. (q, r) \<notin> E" by blast
    with y show ?thesis by (meson rtrancl.rtrancl_into_rtrancl)
  next
    case False
    then show ?thesis by blast
  qed
qed

lemma post_ok_closed:
  assumes "post_ok adj ord" and "(x, y) \<in> (edges adj)\<^sup>*" and "x \<in> set ord"
  shows "y \<in> set ord"
  using assms(2,1,3)
proof (induction rule: rtrancl_induct)
  case base
  then show ?case by simp
next
  case (step y z)
  then have "y \<in> set ord" by simp
  then obtain i where i: "i < length ord" "ord ! i = y" by (auto simp: in_set_conv_nth)
  from step(2) have "z \<in> set (children_of adj y)" by (simp add: edges_def)
  with i step.prems(1) have "z \<in> set (take i ord)" by (auto simp: post_ok_def)
  then show ?case by (rule in_set_takeD)
qed

lemma post_ok_trancl:
  assumes "post_ok adj ord" and "(x, y) \<in> (edges adj)\<^sup>+" and "i < length ord" and "ord ! i = x"
  shows "y \<in> set (take i ord)"
  using assms(2,1,3,4)
proof (induction rule: trancl_induct)
  case (base y)
  then show ?case by (auto simp: post_ok_def edges_def)
next
  case (step y z)
  then have "y \<in> set (take i ord)" by simp
  then obtain j where j: "j < i" "j < length ord" "ord ! j = y"
    by (auto simp: in_set_conv_nth)
  from step(2) have "z \<in> set (children_of adj y)" by (simp add: edges_def)
  with j step.prems(1) have "z \<in> set (take j ord)" by (auto simp: post_ok_def)
  with j(1) show ?case by (meson less_imp_le_nat set_take_subset_set_take subsetD)
qed

lemma precedes_split: "a \<notin> set ys \<Longrightarrow> precedes (ys @ a # zs) a b = (b \<in> set zs)"
  by (induction ys) auto

lemma precedes_rev:
  assumes "distinct ord" and "i < length ord" and "y \<in> set (take i ord)"
  shows "precedes (rev ord) (ord ! i) y"
proof -
  have "ord = take i ord @ ord ! i # drop (Suc i) ord"
    using assms(2) by (simp add: id_take_nth_drop)
  then have r: "rev ord = rev (drop (Suc i) ord) @ ord ! i # rev (take i ord)"
    by (metis rev.simps(2) rev_append append.assoc append_Cons append_Nil)
  have "ord ! i \<notin> set (drop (Suc i) ord)"
    using assms(1,2) by (metis Cons_nth_drop_Suc distinct.simps(2) distinct_drop)
  then have "precedes (rev (drop (Suc i) ord) @ ord ! i # rev (take i ord)) (ord ! i) y
      = (y \<in> set (rev (take i ord)))"
    by (intro precedes_split) simp
  with r assms(3) show ?thesis by simp
qed


lemma edge_source_is_key: "(p, c) \<in> edges adj \<Longrightarrow> p \<in> fst ` set adj"
proof -
  assume "(p, c) \<in> edges adj"
  then have "c \<in> set (children_of adj p)" by (simp add: edges_def)
  then obtain cs where "(p, cs) \<in> set adj" by (rule children_of_cases)
  then show ?thesis by (auto intro: rev_image_eqI)
qed

lemma topological_order_props:
  fixes h :: heap
  assumes dk: "distinct (map fst adj)" and ac: "acyclic (edges adj)"
    and ps: "set ps = all_pipelines adj"
  defines "ord \<equiv> snd (visit_roots adj (roots (set_parents h adj) ps) ({}, []))"
  shows "distinct ord" and "set ord = all_pipelines adj" and "post_ok adj ord"
proof -
  let ?rs = "roots (set_parents h adj) ps"
  let ?s0 = "({}, []) :: nat set \<times> nat list"
  have ord: "ord = snd (visit_children adj ?rs ?s0)" by (simp add: ord_def visit_roots_eq)
  have inv0: "dfs_inv adj ?s0" by (simp add: dfs_inv_def post_ok_def)
  have g0: "\<forall>c \<in> set ?rs. \<forall>g \<in> gray ?s0. (g, c) \<in> (edges adj)\<^sup>+" by (simp add: gray_def)
  from visit_invariant(2)[OF ac inv0 g0]
  have inv: "dfs_inv adj (visit_children adj ?rs ?s0)"
    and rs: "set ?rs \<subseteq> set ord" by (auto simp: ord)
  from inv show d: "distinct ord" and po: "post_ok adj ord" by (auto simp: dfs_inv_def ord)
  have sub: "set ord \<subseteq> all_pipelines adj"
  proof -
    have "set ?rs \<subseteq> all_pipelines adj" using ps by (auto simp: roots_def)
    moreover have "(\<Union>(q, children) \<in> set adj. set children) \<subseteq> all_pipelines adj"
      by (auto simp: all_pipelines_def)
    moreover have "set ord \<subseteq> set ?rs \<union> (\<Union>(q, children) \<in> set adj. set children)"
      using visit_nodes(2)[of adj ?rs ?s0] by (simp add: ord)
    ultimately show ?thesis by blast
  qed
  have sup: "all_pipelines adj \<subseteq> set ord"
  proof
    fix x assume x: "x \<in> all_pipelines adj"
    have "wf (edges adj)" using finite_edges ac by (rule finite_acyclic_wf)
    from reach_from_source[OF this, of x]
    obtain r where r: "(r, x) \<in> (edges adj)\<^sup>*" and src: "\<forall>q. (q, r) \<notin> edges adj" by blast
    have nochild: "\<forall>(q, cs) \<in> set adj. r \<notin> set cs"
      using src edges_iff[OF dk] by blast
    have key: "r \<in> fst ` set adj"
    proof (cases "r = x")
      case True
      with x nochild show ?thesis by (auto simp: all_pipelines_def)
    next
      case False
      with r obtain y where "(r, y) \<in> edges adj" by (meson converse_rtranclE)
      then show ?thesis by (rule edge_source_is_key)
    qed
    then have "r \<in> set ps" using ps by (simp add: all_pipelines_def)
    moreover have "parents (set_parents h adj r) = []" using key nochild by (rule source_is_root)
    ultimately have "r \<in> set ?rs" by (simp add: roots_def)
    with rs have "r \<in> set ord" by blast
    with po r show "x \<in> set ord" by (rule post_ok_closed)
  qed
  from sub sup show "set ord = all_pipelines adj" by blast
qed

lemma topological_sort_precedes:
  assumes dk: "distinct (map fst adj)" and ac: "acyclic (edges adj)"
    and ps: "set ps = all_pipelines adj" and pc: "(p, c) \<in> (edges adj)\<^sup>+"
  shows "precedes (topological_sort (set_parents h adj) adj ps) p c"
proof -
  let ?ord = "snd (visit_roots adj (roots (set_parents h adj) ps) ({}, []))"
  note props = topological_order_props[OF dk ac ps, where h = h]
  from pc obtain y where "(p, y) \<in> edges adj" by (meson converse_tranclE)
  then have "p \<in> fst ` set adj" by (rule edge_source_is_key)
  then have "p \<in> set ?ord" using props(2) by (simp add: all_pipelines_def)
  then obtain i where i: "i < length ?ord" "?ord ! i = p" by (auto simp: in_set_conv_nth)
  from post_ok_trancl[OF props(3) pc i] have "c \<in> set (take i ?ord)" .
  from precedes_rev[OF props(1) i(1) this] i(2)
  show ?thesis by (simp add: topological_sort_def)
qed

lemma acyclic_diamond: "acyclic (edges diamond)"
proof (rule acyclicI_order[where f = "\<lambda>n::nat. 4 - n"])
  fix a b assume "(a, b) \<in> edges diamond"
  then show "4 - b < 4 - a"
    by (auto simp: edges_def children_of_def diamond_def split: if_splits)
qed

lemma diamond_path: "(0, 3) \<in> (edges diamond)\<^sup>+"
proof -
  have "(0, 1) \<in> edges diamond" "(1, 3) \<in> edges diamond"
    by (simp_all add: edges_def children_of_def diamond_def)
  then show ?thesis by (meson trancl.simps)
qed

lemma get_artifact_parents_total:
  "(\<forall>q\<in>set qs. get_artifact pk fuel fs h q n d r \<noteq> None) \<Longrightarrow>
     get_artifact_parents pk fuel fs h qs n d r \<noteq> None"
  by (induction qs) (auto split: option.splits sum.splits exn.splits)

lemma get_artifact_total:
  assumes "wf {(q, p). q \<in> set (parents (h p))}"
  shows "\<exists>k. \<forall>fuel\<ge>k. \<forall>h' fs n d r. (\<forall>q. parents (h' q) = parents (h q)) \<longrightarrow>
           get_artifact pk fuel fs h' p n d r \<noteq> None"
  using assms
proof (induction p rule: wf_induct_rule)
  case (less p)
  have "\<forall>q\<in>set (parents (h p)). \<exists>k. \<forall>fuel\<ge>k. \<forall>h' fs n d r.
          (\<forall>q'. parents (h' q') = parents (h q')) \<longrightarrow>
          get_artifact pk fuel fs h' q n d r \<noteq> None"
    using less by simp
  then obtain f where f: "\<forall>q\<in>set (parents (h p)). \<forall>fuel\<ge>f q. \<forall>h' fs n d r.
          (\<forall>q'. parents (h' q') = parents (h q')) \<longrightarrow>
          get_artifact pk fuel fs h' q n d r \<noteq> None"
    by metis
  define K where "K = Suc (sum_list (map f (parents (h p))))"
  have "get_artifact pk fuel fs h' p n d r \<noteq> None"
    if le: "K \<le> fuel" and par: "\<forall>q. parents (h' q) = parents (h q)" for fuel h' fs n d r
  proof -
    from le obtain m where fuel: "fuel = Suc m" and m: "sum_list (map f (parents (h p))) \<le> m"
      by (cases fuel) (simp_all add: K_def)
    have "\<forall>q\<in>set (parents (h' p)). get_artifact pk m fs h' q n d r \<noteq> None"
    proof
      fix q assume "q \<in> set (parents (h' p))"
      with par have q: "q \<in> set (parents (h p))" by simp
      then have "f q \<in> set (map f (parents (h p)))" by simp
      then have "f q \<le> sum_list (map f (parents (h p)))" by (simp add: member_le_sum_list)
      with m have "f q \<le> m" by simp
      with f q par show "get_artifact pk m fs h' q n d r \<noteq> None" by blast
    qed
    from get_artifact_parents_total[OF this] show ?thesis
      by (simp add: fuel split: sum.splits exn.splits)
  qed
  then show ?case by blast
qed

lemma fill_params_loop_total:
  assumes "\<forall>n d r. get_artifact pk fuel fs h self n d r \<noteq> None"
  shows "fill_params_loop pk fuel fs h self qs params \<noteq> None"
proof (induction qs arbitrary: params)
  case Nil
  show ?case by simp
next
  case (Cons q qs)
  have "\<exists>v. (case default q of
        None \<Rightarrow> get_artifact pk fuel fs h self (pname q) VNone True
      | Some d \<Rightarrow> get_artifact pk fuel fs h self (pname q) d False) = Some v"
    using assms by (cases "default q") auto
  then obtain v where v: "(case default q of
        None \<Rightarrow> get_artifact pk fuel fs h self (pname q) VNone True
      | Some d \<Rightarrow> get_artifact pk fuel fs h self (pname q) d False) = Some v"
    by blast
  show ?case
    using Cons.IH by (cases v) (simp_all add: v)
qed

lemma run_steps_total:
  assumes G: "\<forall>h' fs n d r. (\<forall>q. parents (h' q) = P q) \<longrightarrow>
                get_artifact pk fuel fs h' self n d r \<noteq> None"
  shows "(\<forall>q. parents (h q) = P q) \<Longrightarrow> run_steps pk fuel fs h self ss \<noteq> None"
proof (induction ss arbitrary: fs h)
  case Nil
  show ?case by simp
next
  case (Cons s ss)
  from G Cons.prems have "\<forall>n d r. get_artifact pk fuel fs h self n d r \<noteq> None" by blast
  from fill_params_loop_total[OF this]
  obtain fp where fp: "fill_params_from_step pk fuel fs h self s = Some fp"
    by (auto simp: fill_params_from_step_def)
  show ?case
  proof (cases fp)
    case (Inl x)
    with fp show ?thesis by simp
  next
    case (Inr params)
    show ?thesis
    proof (cases "execute s [] params")
      case (Inl x)
      with fp Inr show ?thesis by simp
    next
      case r: (Inr r)
      show ?thesis
      proof (cases "artifacts_to_save r")
        case (Inl x)
        with fp Inr r show ?thesis by simp
      next
        case d: (Inr d)
        obtain e1 fsa ha where sv: "save_step_artifacts pk fs h self d = (e1, fsa, ha)"
          by (metis prod_cases3)
        show ?thesis
        proof (cases e1)
          case (Some x)
          with fp Inr r d sv show ?thesis by simp
        next
          case None
          define h2 where "h2 = ha(self := (ha self)\<lparr>processed_stack :=
                   processed_stack (ha self) @ [s]\<rparr>)"
          have "\<forall>q. parents (h2 q) = P q"
            using save_step_artifacts_frame[OF sv] Cons.prems by (simp add: h2_def)
          from Cons.IH[OF this] obtain res where "run_steps pk fuel fsa h2 self ss = Some res"
            by blast
          with fp Inr r d sv None show ?thesis
            by (cases res) (simp add: Let_def h2_def)
        qed
      qed
    qed
  qed
qed

lemma run_total:
  assumes "\<forall>h' fs n d r. (\<forall>q. parents (h' q) = P q) \<longrightarrow>
                get_artifact pk fuel fs h' self n d r \<noteq> None"
    and "\<forall>q. parents (h q) = P q"
  shows "run pk fuel fs h self \<noteq> None"
  using run_steps_total[OF assms(1), of h fs "steps (h self)"] assms(2)
  by (simp add: run_def)

lemma run_pipelines_total:
  assumes G: "\<forall>p\<in>set ps. \<forall>h' fs n d r. (\<forall>q. parents (h' q) = P q) \<longrightarrow>
                get_artifact pk fuel fs h' p n d r \<noteq> None"
  shows "(\<forall>q. parents (h q) = P q) \<Longrightarrow> run_pipelines pk fuel fs h ps \<noteq> None"
  using G
proof (induction ps arbitrary: fs h)
  case Nil
  show ?case by simp
next
  case (Cons p ps)
  from Cons.prems have Gp: "\<forall>h' fs n d r. (\<forall>q. parents (h' q) = P q) \<longrightarrow>
                get_artifact pk fuel fs h' p n d r \<noteq> None" by simp
  from run_total[OF Gp Cons.prems(1)] obtain e1 fs1 h1 c1 where
    r: "run pk fuel fs h p = Some (e1, fs1, h1, c1)" by (metis not_None_eq prod_cases4)
  show ?case
  proof (cases e1)
    case (Some x)
    with r show ?thesis by simp
  next
    case None
    have "\<forall>q. parents (h1 q) = P q" using run_frame[OF r] Cons.prems(1) by simp
    moreover from Cons.prems have "\<forall>p\<in>set ps. \<forall>h' fs n d r.
        (\<forall>q. parents (h' q) = P q) \<longrightarrow> get_artifact pk fuel fs h' p n d r \<noteq> None" by simp
    ultimately have "run_pipelines pk fuel fs1 h1 ps \<noteq> None" by (rule Cons.IH)
    then obtain res where "run_pipelines pk fuel fs1 h1 ps = Some res" by blast
    with r None show ?thesis by (cases res) simp
  qed
qed

lemma run_pipelines_enough_fuel:
  assumes "wf {(q, p). q \<in> set (parents (h p))}"
  shows "\<exists>k. \<forall>fuel\<ge>k. \<forall>fs. run_pipelines pk fuel fs h ps \<noteq> None"
proof -
  from get_artifact_total[OF assms, of pk]
  have "\<forall>p. \<exists>k. \<forall>fuel\<ge>k. \<forall>h' fs n d r. (\<forall>q. parents (h' q) = parents (h q)) \<longrightarrow>
           get_artifact pk fuel fs h' p n d r \<noteq> None" by blast
  then obtain f where f: "\<forall>p. \<forall>fuel\<ge>f p. \<forall>h' fs n d r.
      (\<forall>q. parents (h' q) = parents (h q)) \<longrightarrow> get_artifact pk fuel fs h' p n d r \<noteq> None"
    by metis
  have "run_pipelines pk fuel fs h ps \<noteq> None" if le: "sum_list (map f ps) \<le> fuel" for fuel fs
  proof -
    have "\<forall>p\<in>set ps. \<forall>h' fs n d r. (\<forall>q. parents (h' q) = parents (h q)) \<longrightarrow>
                get_artifact pk fuel fs h' p n d r \<noteq> None"
    proof
      fix p assume "p \<in> set ps"
      then have "f p \<in> set (map f ps)" by simp
      then have "f p \<le> sum_list (map f ps)" by (simp add: member_le_sum_list)
      with le have "f p \<le> fuel" by simp
      with f show "\<forall>h' fs n d r. (\<forall>q. parents (h' q) = parents (h q)) \<longrightarrow>
                get_artifact pk fuel fs h' p n d r \<noteq> None" by blast
    qed
    from run_pipelines_total[OF this, of h fs] show ?thesis by simp
  qed
  then show ?thesis by blast
qed

lemma run_pipelines_sequence:
  "run_pipelines pk fuel fs h ps = Some (e, fs', h', called) \<Longrightarrow>
     prefix called ps \<and> (e = None \<longrightarrow> called = ps) \<and> (called = [] \<longrightarrow> e = None) \<and>
     (\<exists>ss. length ss = Suc (length called) \<and> ss ! 0 = (fs, h) \<and>
           ss ! length called = (fs', h') \<and>
           (\<forall>i<length called. \<exists>c.
              run pk fuel (fst (ss ! i)) (snd (ss ! i)) (called ! i)
                = Some (if Suc i = length called then e else None,
                        fst (ss ! Suc i), snd (ss ! Suc i), c)))"
proof (induction ps arbitrary: fs h e fs' h' called)
  case Nil
  then have eq: "called = []" "e = None" "fs' = fs" "h' = h" by simp_all
  have "length [(fs, h)] = Suc (length called) \<and> [(fs, h)] ! 0 = (fs, h) \<and>
           [(fs, h)] ! length called = (fs', h') \<and>
           (\<forall>i<length called. \<exists>c.
              run pk fuel (fst ([(fs, h)] ! i)) (snd ([(fs, h)] ! i)) (called ! i)
                = Some (if Suc i = length called then e else None,
                        fst ([(fs, h)] ! Suc i), snd ([(fs, h)] ! Suc i), c))"
    unfolding eq by simp
  then have "\<exists>ss. length ss = Suc (length called) \<and> ss ! 0 = (fs, h) \<and>
           ss ! length called = (fs', h') \<and>
           (\<forall>i<length called. \<exists>c.
              run pk fuel (fst (ss ! i)) (snd (ss ! i)) (called ! i)
                = Some (if Suc i = length called then e else None,
                        fst (ss ! Suc i), snd (ss ! Suc i), c))" by (rule exI[where x = "[(fs, h)]"])
  moreover have "prefix called []" "e = None \<longrightarrow> called = []" "called = [] \<longrightarrow> e = None"
    by (simp_all add: eq)
  ultimately show ?case by blast
next
  case (Cons p ps)
  from Cons.prems obtain e1 fs1 h1 c1 where r: "run pk fuel fs h p = Some (e1, fs1, h1, c1)"
    by (cases "run pk fuel fs h p") auto
  show ?case
  proof (cases e1)
    case (Some x)
    with Cons.prems r have eq: "e = Some x" "fs' = fs1" "h' = h1" "called = [p]" by simp_all
    let ?ss = "[(fs, h), (fs1, h1)]"
    have step: "\<exists>c. run pk fuel (fst (?ss ! i)) (snd (?ss ! i)) (called ! i)
                = Some (if Suc i = length called then e else None,
                        fst (?ss ! Suc i), snd (?ss ! Suc i), c)"
      if i: "i < length called" for i
    proof -
      from i have "i = 0" by (simp add: eq)
      with r Some show ?thesis by (simp add: eq)
    qed
    have "length ?ss = Suc (length called)" "?ss ! 0 = (fs, h)" "?ss ! length called = (fs', h')"
      by (simp_all add: eq)
    with step have "length ?ss = Suc (length called) \<and> ?ss ! 0 = (fs, h) \<and>
           ?ss ! length called = (fs', h') \<and>
           (\<forall>i<length called. \<exists>c.
              run pk fuel (fst (?ss ! i)) (snd (?ss ! i)) (called ! i)
                = Some (if Suc i = length called then e else None,
                        fst (?ss ! Suc i), snd (?ss ! Suc i), c))"
      by blast
    then have "\<exists>ss. length ss = Suc (length called) \<and> ss ! 0 = (fs, h) \<and>
           ss ! length called = (fs', h') \<and>
           (\<forall>i<length called. \<exists>c.
              run pk fuel (fst (ss ! i)) (snd (ss ! i)) (called ! i)
                = Some (if Suc i = length called then e else None,
                        fst (ss ! Suc i), snd (ss ! Suc i), c))" by (rule exI[where x = "[(fs, h), (fs1, h1)]"])
    moreover have "prefix called (p # ps)" "e = None \<longrightarrow> called = p # ps"
      "called = [] \<longrightarrow> e = None"
      by (simp_all add: eq)
    ultimately show ?thesis by blast
  next
    case None
    with Cons.prems r obtain c2 where
      rec: "run_pipelines pk fuel fs1 h1 ps = Some (e, fs', h', c2)"
      and called: "called = p # c2"
      by (auto split: option.splits)
    from Cons.IH[OF rec] obtain ss where pre: "prefix c2 ps" and all: "e = None \<longrightarrow> c2 = ps"
      and emp: "c2 = [] \<longrightarrow> e = None"
      and len: "length ss = Suc (length c2)" and s0: "ss ! 0 = (fs1, h1)"
      and sl: "ss ! length c2 = (fs', h')"
      and runs: "\<forall>i<length c2. \<exists>c.
              run pk fuel (fst (ss ! i)) (snd (ss ! i)) (c2 ! i)
                = Some (if Suc i = length c2 then e else None,
                        fst (ss ! Suc i), snd (ss ! Suc i), c)"
      by blast
    define ss' where "ss' = (fs, h) # ss"
    have nth0: "ss' ! 0 = (fs, h)" and nthS: "\<And>j. ss' ! Suc j = ss ! j"
      by (simp_all add: ss'_def)
    have step: "\<exists>c. run pk fuel (fst (ss' ! i)) (snd (ss' ! i)) (called ! i)
                = Some (if Suc i = length called then e else None,
                        fst (ss' ! Suc i), snd (ss' ! Suc i), c)"
      if i: "i < length called" for i
    proof (cases i)
      case 0
      have "(if Suc 0 = length called then e else None) = None"
        using emp by (simp add: called)
      moreover have "called ! 0 = p" by (simp add: called)
      ultimately show ?thesis
        unfolding 0 nth0 nthS s0 using r None by simp
    next
      case (Suc j)
      with i have j: "j < length c2" by (simp add: called)
      from runs j obtain c where "run pk fuel (fst (ss ! j)) (snd (ss ! j)) (c2 ! j)
                = Some (if Suc j = length c2 then e else None,
                        fst (ss ! Suc j), snd (ss ! Suc j), c)" by blast
      moreover have "called ! Suc j = c2 ! j" by (simp add: called)
      moreover have "(Suc (Suc j) = length called) = (Suc j = length c2)" by (simp add: called)
      ultimately show ?thesis unfolding Suc nthS by simp
    qed
    have "length ss' = Suc (length called)" "ss' ! length called = (fs', h')"
      using len sl by (simp_all add: called ss'_def)
    with nth0 step have "length ss' = Suc (length called) \<and> ss' ! 0 = (fs, h) \<and>
           ss' ! length called = (fs', h') \<and>
           (\<forall>i<length called. \<exists>c.
              run pk fuel (fst (ss' ! i)) (snd (ss' ! i)) (called ! i)
                = Some (if Suc i = length called then e else None,
                        fst (ss' ! Suc i), snd (ss' ! Suc i), c))"
      by blast
    then have "\<exists>ss. length ss = Suc (length called) \<and> ss ! 0 = (fs, h) \<and>
           ss ! length called = (fs', h') \<and>
           (\<forall>i<length called. \<exists>c.
              run pk fuel (fst (ss ! i)) (snd (ss ! i)) (called ! i)
                = Some (if Suc i = length called then e else None,
                        fst (ss ! Suc i), snd (ss ! Suc i), c))" by (rule exI[where x = ss'])
    moreover have "prefix called (p # ps)" "e = None \<longrightarrow> called = p # ps"
      "called = [] \<longrightarrow> e = None"
      using pre all by (simp_all add: called)
    ultimately show ?thesis by blast
  qed
qed

lemma run_pipelines_completed:
  "run_pipelines pk fuel fs h ps = Some (None, fs', h', called) \<Longrightarrow> distinct ps \<Longrightarrow>
     (\<forall>p\<in>set ps. finished (h' p) \<and>
        processed_stack (h' p)
          = processed_stack (h p) @ (if finished (h p) then [] else steps (h p))) \<and>
     (\<forall>p. p \<notin> set ps \<longrightarrow> h' p = h p)"
proof (induction ps arbitrary: fs h called)
  case Nil
  then show ?case by simp
next
  case (Cons p ps)
  from Cons.prems(1) obtain e1 fs1 h1 c1 where r: "run pk fuel fs h p = Some (e1, fs1, h1, c1)"
    by (cases "run pk fuel fs h p") auto
  with Cons.prems(1) have e1: "e1 = None" by (cases e1) (auto split: option.splits)
  with Cons.prems(1) r obtain c2 where
    rec: "run pk fuel fs h p = Some (None, fs1, h1, c1)"
      "run_pipelines pk fuel fs1 h1 ps = Some (None, fs', h', c2)"
    by (auto split: option.splits)
  from Cons.prems(2) have d: "distinct ps" and np: "p \<notin> set ps" by simp_all
  note ih = Cons.IH[OF rec(2) d]
  note rc = run_completed[OF rec(1)]
  note rf = run_frame[OF rec(1)]
  have self: "finished (h' p) \<and> processed_stack (h' p)
          = processed_stack (h p) @ (if finished (h p) then [] else steps (h p))"
    using ih np rc by simp
  have others: "finished (h' q) \<and> processed_stack (h' q)
          = processed_stack (h q) @ (if finished (h q) then [] else steps (h q))"
    if "q \<in> set ps" for q
  proof -
    from that np have "q \<noteq> p" by blast
    with rf[of q] have "h1 q = h q" by simp
    with ih that show ?thesis by auto
  qed
  have out: "h' q = h q" if "q \<notin> set (p # ps)" for q
  proof -
    from that have "q \<noteq> p" "q \<notin> set ps" by simp_all
    with rf[of q] ih show ?thesis by simp
  qed
  from self others out show ?case by auto
qed

text \<open>
  Claim C5: for an acyclic adjacency dictionary, the order computed right after the
  construction of the composition holds every pipeline of the dictionary (keys and
  children) exactly once and puts every pipeline before all its transitive children.
  \<open>run\<close> calls the pipelines' \<open>run\<close> in that order, one after the other, each on the
  file system and the heap the one before it left, and stops at the first that raises:
  the pipelines called are a prefix of the order, all of it when no exception leaves
  \<open>run\<close>, and then every pipeline is finished and has executed its steps, if it was not
  finished before. When the parents of the heap form no cycle, \<open>run\<close> gives a result,
  whatever the file system. \<open>ps\<close> is any iteration order of the set of pipelines.
\<close>

theorem topological_sort_correct:
  assumes "distinct (map fst adj)" and "acyclic (edges adj)" and "set ps = all_pipelines adj"
  shows "set (topological_sort (PipelineComposition_init h adj) adj ps) = all_pipelines adj \<and>
         distinct (topological_sort (PipelineComposition_init h adj) adj ps) \<and>
         (\<forall>p c. (p, c) \<in> (edges adj)\<^sup>+ \<longrightarrow>
            precedes (topological_sort (PipelineComposition_init h adj) adj ps) p c) \<and>
         (\<forall>fuel fs e fs' h' called.
            PipelineComposition_run pk fuel fs (PipelineComposition_init h adj) adj ps
              = Some (e, fs', h', called) \<longrightarrow>
            prefix called (topological_sort (PipelineComposition_init h adj) adj ps) \<and>
            (e = None \<longrightarrow>
               called = topological_sort (PipelineComposition_init h adj) adj ps) \<and>
            (called = [] \<longrightarrow> e = None) \<and>
            (\<exists>ss. length ss = Suc (length called) \<and>
                  ss ! 0 = (fs, PipelineComposition_init h adj) \<and>
                  ss ! length called = (fs', h') \<and>
                  (\<forall>i<length called. \<exists>c.
                     run pk fuel (fst (ss ! i)) (snd (ss ! i)) (called ! i)
                       = Some (if Suc i = length called then e else None,
                               fst (ss ! Suc i), snd (ss ! Suc i), c))) \<and>
            (e = None \<longrightarrow>
               (\<forall>p\<in>all_pipelines adj.
                  finished (h' p) \<and>
                  processed_stack (h' p)
                    = processed_stack (PipelineComposition_init h adj p) @
                      (if finished (PipelineComposition_init h adj p) then []
                       else steps (PipelineComposition_init h adj p))) \<and>
               (\<forall>p. p \<notin> all_pipelines adj \<longrightarrow> h' p = PipelineComposition_init h adj p))) \<and>
         (wf {(q, p). q \<in> set (parents (PipelineComposition_init h adj p))} \<longrightarrow>
            (\<exists>k. \<forall>fuel\<ge>k. \<forall>fs.
               PipelineComposition_run pk fuel fs (PipelineComposition_init h adj) adj ps
                 \<noteq> None))"
proof -
  define h0 where "h0 = PipelineComposition_init h adj"
  define ord where "ord = topological_sort h0 adj ps"
  note props = topological_order_props[OF assms, where h = h]
  have s: "set ord = all_pipelines adj"
    using props(2) by (simp add: ord_def h0_def topological_sort_def PipelineComposition_init_def)
  have d: "distinct ord"
    using props(1) by (simp add: ord_def h0_def topological_sort_def PipelineComposition_init_def)
  have pr: "\<forall>p c. (p, c) \<in> (edges adj)\<^sup>+ \<longrightarrow> precedes ord p c"
    using topological_sort_precedes[OF assms]
    by (simp add: ord_def h0_def PipelineComposition_init_def)
  have rn: "prefix called ord \<and> (e = None \<longrightarrow> called = ord) \<and> (called = [] \<longrightarrow> e = None) \<and>
        (\<exists>ss. length ss = Suc (length called) \<and> ss ! 0 = (fs, h0) \<and>
              ss ! length called = (fs', h') \<and>
              (\<forall>i<length called. \<exists>c.
                 run pk fuel (fst (ss ! i)) (snd (ss ! i)) (called ! i)
                   = Some (if Suc i = length called then e else None,
                           fst (ss ! Suc i), snd (ss ! Suc i), c))) \<and>
        (e = None \<longrightarrow>
           (\<forall>p\<in>all_pipelines adj.
              finished (h' p) \<and>
              processed_stack (h' p)
                = processed_stack (h0 p) @ (if finished (h0 p) then [] else steps (h0 p))) \<and>
           (\<forall>p. p \<notin> all_pipelines adj \<longrightarrow> h' p = h0 p))"
    if r: "PipelineComposition_run pk fuel fs h0 adj ps = Some (e, fs', h', called)"
    for fuel fs e fs' h' called
  proof -
    from r have r': "run_pipelines pk fuel fs h0 ord = Some (e, fs', h', called)"
      by (simp add: PipelineComposition_run_def ord_def)
    note sq = run_pipelines_sequence[OF r']
    have "(\<forall>p\<in>all_pipelines adj.
              finished (h' p) \<and>
              processed_stack (h' p)
                = processed_stack (h0 p) @ (if finished (h0 p) then [] else steps (h0 p))) \<and>
           (\<forall>p. p \<notin> all_pipelines adj \<longrightarrow> h' p = h0 p)" if e: "e = None"
    proof -
      from r' e have "run_pipelines pk fuel fs h0 ord = Some (None, fs', h', called)" by simp
      from run_pipelines_completed[OF this d] show ?thesis unfolding s .
    qed
    with sq show ?thesis by blast
  qed
  have tot: "\<exists>k. \<forall>fuel\<ge>k. \<forall>fs. PipelineComposition_run pk fuel fs h0 adj ps \<noteq> None"
    if w: "wf {(q, p). q \<in> set (parents (h0 p))}"
    using run_pipelines_enough_fuel[OF w, of pk ord]
    by (simp add: PipelineComposition_run_def ord_def)
  from s d pr rn tot show ?thesis
    unfolding ord_def h0_def by blast
qed

theorem topological_sort_correct_witness:
  "distinct (map fst diamond) \<and> acyclic (edges diamond) \<and>
   set [3, 2, 1, 0] = all_pipelines diamond \<and>
   wf {(q, p). q \<in> set (parents (PipelineComposition_init diamond_heap diamond p))} \<and>
   topological_sort (PipelineComposition_init diamond_heap diamond) diamond [3, 2, 1, 0]
     = [0, 2, 1, 3] \<and>
   precedes (topological_sort (PipelineComposition_init diamond_heap diamond) diamond
     [3, 2, 1, 0]) 0 3 \<and>
   (\<exists>fs' h'. PipelineComposition_run example_pickle 3 empty_fs
               (PipelineComposition_init diamond_heap diamond) diamond [3, 2, 1, 0]
             = Some (None, fs', h', [0, 2, 1, 3]) \<and>
           finished (h' 0) \<and> finished (h' 1) \<and> finished (h' 2) \<and> finished (h' 3) \<and>
           processed_stack (h' 0) = [optional_x_step] \<and>
           processed_stack (h' 3) = [forward_step] \<and>
           get_artifact example_pickle 1 fs' h' 3 ''z'' VNone True = Some (Inr (VInt 0))) \<and>
   (\<exists>k. \<forall>fuel\<ge>k. \<forall>fs.
      PipelineComposition_run example_pickle fuel fs
        (PipelineComposition_init diamond_heap diamond) diamond [3, 2, 1, 0] \<noteq> None)"
proof -
  let ?h0 = "PipelineComposition_init diamond_heap diamond"
  have d: "distinct (map fst diamond)" by (simp add: diamond_def)
  have s: "set [3, 2, 1, 0] = all_pipelines diamond"
    by (auto simp: all_pipelines_def diamond_def)
  have h0: "?h0 = empty_heap
      (0 := (memory_pipeline ''A'' [optional_x_step])\<lparr>parents := []\<rparr>,
       1 := (memory_pipeline ''default_pipeline'' [])\<lparr>parents := [0]\<rparr>,
       2 := (memory_pipeline ''default_pipeline'' [])\<lparr>parents := [0]\<rparr>,
       3 := (memory_pipeline ''D'' [forward_step])\<lparr>parents := [1, 2]\<rparr>)"
    by (simp add: PipelineComposition_init_def set_parents_def diamond_def diamond_heap_def
        empty_heap_def memory_pipeline_eq add_parent_def fun_upd_twist)
  have "{(q, p). q \<in> set (parents (?h0 p))} \<subseteq> {(q, p). q < p}"
    unfolding h0 by (auto simp: empty_heap_def memory_pipeline_eq split: if_splits)
  then have w: "wf {(q, p). q \<in> set (parents (?h0 p))}"
    by (rule wf_subset[OF wf_less])
  have ord: "topological_sort ?h0 diamond [3, 2, 1, 0] = [0, 2, 1, 3]"
    unfolding h0
    by (simp add: topological_sort_def diamond_def empty_heap_def memory_pipeline_eq
        roots_def children_of_def)
  have "\<exists>fs' h'. run_pipelines example_pickle 3 empty_fs ?h0 [0, 2, 1, 3]
             = Some (None, fs', h', [0, 2, 1, 3]) \<and>
           get_artifact example_pickle 1 fs' h' 3 ''z'' VNone True = Some (Inr (VInt 0))"
    unfolding h0
    by (simp add: run_def empty_heap_def memory_pipeline_eq numeral_3_eq_3
        fill_params_from_step_def get_execute_params_def optional_x_step_def forward_step_def
        save_artifact_def manager_save_artifact_def manager_get_artifact_def
        ArtifactInMemory_get_artifact_def ArtifactInMemory_save_artifact_def)
  then obtain fs' h' where
    r: "PipelineComposition_run example_pickle 3 empty_fs ?h0 diamond [3, 2, 1, 0]
          = Some (None, fs', h', [0, 2, 1, 3])"
    and z: "get_artifact example_pickle 1 fs' h' 3 ''z'' VNone True = Some (Inr (VInt 0))"
    unfolding PipelineComposition_run_def ord by blast
  note inst = topological_sort_correct[OF d acyclic_diamond s, of diamond_heap example_pickle]
  from inst diamond_path
  have pr: "precedes (topological_sort ?h0 diamond [3, 2, 1, 0]) 0 3" by blast
  from inst r have fin: "\<forall>p\<in>all_pipelines diamond. finished (h' p) \<and>
      processed_stack (h' p)
        = processed_stack (?h0 p) @ (if finished (?h0 p) then [] else steps (?h0 p))"
    by blast
  have stacks: "processed_stack (?h0 0) = []" "steps (?h0 0) = [optional_x_step]"
    "\<not> finished (?h0 0)" "processed_stack (?h0 3) = []" "steps (?h0 3) = [forward_step]"
    "\<not> finished (?h0 3)"
    unfolding h0 by (simp_all add: memory_pipeline_eq)
  from fin s[symmetric] have f: "finished (h' 0)" "finished (h' 1)" "finished (h' 2)"
    "finished (h' 3)" by simp_all
  from fin s[symmetric] stacks have p: "processed_stack (h' 0) = [optional_x_step]"
    "processed_stack (h' 3) = [forward_step]" by simp_all
  from inst w have tot: "\<exists>k. \<forall>fuel\<ge>k. \<forall>fs.
      PipelineComposition_run example_pickle fuel fs ?h0 diamond [3, 2, 1, 0] \<noteq> None"
    by blast
  from d acyclic_diamond s w ord pr r z f p tot show ?thesis by blast
qed

section \<open>Memoization by the cache wrappers\<close>




lemma hex_of_nonempty: "0 < k \<Longrightarrow> hex_of k n \<noteq> []"
  by (cases k) simp_all





































end
